theory Spec2Isabelle
  imports Main "HOL-Library.Word" "HOL-Library.Monad_Syntax"
begin

section \<open>Machine model\<close>

text \<open>
  The stage runs on a flat 32-bit address space. Following \<^verbatim>\<open>types.h\<close>,
  \<^verbatim>\<open>u8\<close> and \<^verbatim>\<open>char\<close> are 8-bit values and \<^verbatim>\<open>u32\<close> (also the width of a
  pointer) is a 32-bit value; arithmetic on both wraps around. Raw memory is a total
  function from addresses to bytes; pointer arithmetic \<^verbatim>\<open>p[i]\<close> is the address
  \<open>p + i\<close> modulo \<open>2 ^ 32\<close>.
\<close>

type_synonym u8 = "8 word"
type_synonym u32 = "32 word"
type_synonym memory = "u32 \<Rightarrow> u8"

section \<open>Primitive runtime (core\_ops.c)\<close>

subsection \<open>memcpy\<close>

text \<open>
  \<^verbatim>\<open>for (u32 i = 0; i < n; i++) cdest[i] = csrc[i];\<close>
  The loop reads the current memory, so a byte stored by an earlier iteration is seen
  by a later one when the ranges overlap.
\<close>

function memcpy_loop :: "memory \<Rightarrow> u32 \<Rightarrow> u32 \<Rightarrow> u32 \<Rightarrow> u32 \<Rightarrow> memory" where
  "memcpy_loop m cdest csrc n i =
     (if i < n then memcpy_loop (m(cdest + i := m (csrc + i))) cdest csrc n (i + 1)
      else m)"
  by pat_completeness auto
termination
proof (relation "measure (\<lambda>(m, cdest, csrc, n, i). unat n - unat i)")
  show "wf (measure (\<lambda>(m, cdest, csrc, n, i). unat n - unat i))"
    by simp
next
  fix m :: memory and cdest csrc n i :: u32
  assume "i < n"
  then have "unat i < unat n"
    by (simp add: word_less_nat_alt)
  moreover from \<open>i < n\<close> have "unat (i + 1) = Suc (unat i)"
    by unat_arith
  ultimately show "((m(cdest + i := m (csrc + i)), cdest, csrc, n, i + 1), (m, cdest, csrc, n, i))
      \<in> measure (\<lambda>(m, cdest, csrc, n, i). unat n - unat i)"
    by simp
qed

definition memcpy :: "memory \<Rightarrow> u32 \<Rightarrow> u32 \<Rightarrow> u32 \<Rightarrow> memory" where
  "memcpy m dest src n = memcpy_loop m dest src n 0"

subsection \<open>memset\<close>

text \<open>
  \<^verbatim>\<open>for(;n != 0; n--) *temp++ = val;\<close>
  The count is a C \<^verbatim>\<open>int\<close>; the loop only compares it with zero and decrements it, so
  the 32-bit pattern is all that matters and a negative count runs until the
  pattern reaches zero.
\<close>

function memset_loop :: "memory \<Rightarrow> u32 \<Rightarrow> u8 \<Rightarrow> u32 \<Rightarrow> memory" where
  "memset_loop m temp val n =
     (if n \<noteq> 0 then memset_loop (m(temp := val)) (temp + 1) val (n - 1) else m)"
  by pat_completeness auto
termination
proof (relation "measure (\<lambda>(m, temp, val, n). unat n)")
  show "wf (measure (\<lambda>(m, temp, val, n). unat n))"
    by simp
next
  fix m :: memory and temp n :: u32 and val :: u8
  assume "n \<noteq> 0"
  then have "unat (n - 1) < unat n"
    by unat_arith
  then show "((m(temp := val), temp + 1, val, n - 1), (m, temp, val, n))
      \<in> measure (\<lambda>(m, temp, val, n). unat n)"
    by simp
qed

definition memset :: "memory \<Rightarrow> u32 \<Rightarrow> u8 \<Rightarrow> u32 \<Rightarrow> memory" where
  "memset m dst val n = memset_loop m dst val n"

subsection \<open>digit\_count and itoa\<close>

function digit_count_loop :: "u32 \<Rightarrow> u32 \<Rightarrow> u32" where
  "digit_count_loop count num =
     (if num > 0 then digit_count_loop (count + 1) (num div 10) else count)"
  by pat_completeness auto
termination
proof (relation "measure (\<lambda>(count, num). unat num)")
  show "wf (measure (\<lambda>(count, num). unat num))"
    by simp
next
  fix count num :: u32
  assume "0 < num"
  then have "unat (num div 10) < unat num"
    by (simp add: unat_div word_less_nat_alt)
  then show "((count + 1, num div 10), (count, num)) \<in> measure (\<lambda>(count, num). unat num)"
    by simp
qed

definition digit_count :: "u32 \<Rightarrow> u32" where
  "digit_count num = (if num = 0 then 1 else digit_count_loop 0 num)"

text \<open>
  \<^verbatim>\<open>x = num % 10; number[index] = x + '0'; index--; num = num / 10;\<close>
  \<^verbatim>\<open>x\<close> is a \<^verbatim>\<open>char\<close>: the remainder is truncated to 8 bits and \<^verbatim>\<open>'0'\<close> is
  \<open>0x30\<close>. After the last digit \<^verbatim>\<open>index\<close> wraps to \<open>0xFFFFFFFF\<close> and is never
  used again.
\<close>

function itoa_loop :: "memory \<Rightarrow> u32 \<Rightarrow> u32 \<Rightarrow> u32 \<Rightarrow> memory" where
  "itoa_loop m number index num =
     (if num \<noteq> 0
      then itoa_loop (m(number + index := ucast (num mod 10) + 0x30)) number (index - 1) (num div 10)
      else m)"
  by pat_completeness auto
termination
proof (relation "measure (\<lambda>(m, number, index, num). unat num)")
  show "wf (measure (\<lambda>(m, number, index, num). unat num))"
    by simp
next
  fix m :: memory and number index num :: u32
  assume "num \<noteq> 0"
  then have "0 < num"
    by (simp add: word_greater_zero_iff)
  then have "unat (num div 10) < unat num"
    by (simp add: unat_div word_less_nat_alt)
  then show "((m(number + index := ucast (num mod 10) + 0x30), number, index - 1, num div 10),
      (m, number, index, num)) \<in> measure (\<lambda>(m, number, index, num). unat num)"
    by simp
qed

definition itoa :: "u32 \<Rightarrow> memory \<Rightarrow> u32 \<Rightarrow> memory" where
  "itoa num m number =
     (let dgcount = digit_count num;
          index = dgcount - 1
      in if num = 0 \<and> dgcount = 1
         then (m(number + 0 := 0x30))(number + 1 := 0)
         else (itoa_loop m number index num)(number + dgcount := 0))"

subsection \<open>strlen\<close>

text \<open>
  \<^verbatim>\<open>while(str[length] != '\0') length++;\<close>
  Nothing bounds the loop: on a memory without a zero byte the 32-bit counter wraps
  and the loop runs for ever, which is the value \<open>None\<close> here.
\<close>

partial_function (option) strlen_loop :: "memory \<Rightarrow> u32 \<Rightarrow> u32 \<Rightarrow> u32 option" where
  "strlen_loop m str len =
     (if m (str + len) \<noteq> 0 then strlen_loop m str (len + 1) else Some len)"

definition strlen :: "memory \<Rightarrow> u32 \<Rightarrow> u32 option" where
  "strlen m str = strlen_loop m str 0"

section \<open>The stage (start.c)\<close>

text \<open>
  The state of the stage is the raw memory, which holds the loaded image and the
  memory-mapped text display, and the global cursor \<^verbatim>\<open>vga_address\<close>, which the source
  initialises to \<open>0xb8000\<close>. As in C's object model, the global cursor and the local
  array \<^verbatim>\<open>num_str\<close> are objects of their own: \<^verbatim>\<open>num_str\<close> lives in a stack memory
  \<open>stk\<close> at the address \<open>num_str\<close>, apart from the raw memory that the scan reads
  through the integer pointer \<^verbatim>\<open>our_ptr\<close>.
\<close>

record state =
  mem :: memory
  vga_address :: u32

definition boot :: "memory \<Rightarrow> state" where
  "boot img = \<lparr>mem = img, vga_address = 0xb8000\<rparr>"

text \<open>\<^verbatim>\<open>*(vga_address+=2) = c;\<close> the cursor moves first, then the byte is stored.\<close>

definition vga_put :: "state \<Rightarrow> u8 \<Rightarrow> state" where
  "vga_put s c = s\<lparr>vga_address := vga_address s + 2, mem := (mem s)(vga_address s + 2 := c)\<rparr>"

text \<open>\<^verbatim>\<open>void test() { *(vga_address++) = 'q'; }\<close>\<close>

definition test :: "state \<Rightarrow> state" where
  "test s = s\<lparr>mem := (mem s)(vga_address s := of_char CHR ''q''), vga_address := vga_address s + 1\<rparr>"

text \<open>
  \<^verbatim>\<open>for (u32 i = 0; i < strlen(num_str); i ++) *(vga_address+=2) = num_str[i];\<close>
  The bound is evaluated again before every iteration.
\<close>

partial_function (option) print_loop :: "memory \<Rightarrow> u32 \<Rightarrow> state \<Rightarrow> u32 \<Rightarrow> state option" where
  "print_loop stk num_str s i =
     do {
       n \<leftarrow> strlen stk num_str;
       if i < n then print_loop stk num_str (vga_put s (stk (num_str + i))) (i + 1)
       else Some s
     }"

text \<open>
  The three places that show a number (lines 41 to 45, 80 to 84 and 93 to 97) are the
  same code: clear the buffer, render the number, write its characters.
\<close>

definition print_u32 :: "memory \<Rightarrow> u32 \<Rightarrow> state \<Rightarrow> u32 \<Rightarrow> (memory \<times> state) option" where
  "print_u32 stk num_str s v =
     (let stk = memset stk num_str 0 32;
          stk = itoa v stk num_str
      in do { s \<leftarrow> print_loop stk num_str s 0; Some (stk, s) })"

subsection \<open>The sentinel scan\<close>

definition our_ptr :: u32 where
  "our_ptr = 0x0"

definition start_match :: "memory \<Rightarrow> u32 \<Rightarrow> bool" where
  "start_match m i \<longleftrightarrow>
     (m (our_ptr + i) = 0x21 \<and> m (our_ptr + (i + 1)) = 0x73) \<or>
     (m (our_ptr + i) = 0x73 \<and> m (our_ptr + (i + 1)) = 0x21)"

definition end_match :: "memory \<Rightarrow> u32 \<Rightarrow> bool" where
  "end_match m i \<longleftrightarrow>
     (m (our_ptr + i) = 0xbe \<and> m (our_ptr + (i + 1)) = 0xef) \<or>
     (m (our_ptr + i) = 0xef \<and> m (our_ptr + (i + 1)) = 0xbe)"

definition poop :: "state \<Rightarrow> state" where
  "poop s = vga_put (vga_put (vga_put (vga_put s (of_char CHR ''P'')) (of_char CHR ''o''))
     (of_char CHR ''o'')) (of_char CHR ''p'')"

text \<open>
  The loop of lines 52 to 73, with the three locals it changes. Each round tests the
  start sentinel, then the end sentinel (which leaves the loop), then the bound (which
  writes the token and leaves the loop).
\<close>

function scan_loop :: "state \<Rightarrow> u32 \<Rightarrow> u32 \<Rightarrow> u32 \<Rightarrow> state \<times> u32 \<times> u32" where
  "scan_loop s loader_start loader_end i =
     (let loader_start = (if start_match (mem s) i then i else loader_start)
      in if end_match (mem s) i then (s, loader_start, i)
         else if i \<ge> 0xFFFF then (poop s, loader_start, loader_end)
         else scan_loop s loader_start loader_end (i + 1))"
  by pat_completeness auto
termination
proof (relation "measure (\<lambda>(s, loader_start, loader_end, i). 0xFFFF - unat i)", goal_cases)
  case 1
  show ?case
    by simp
next
  case (2 s loader_start loader_end i x)
  have succ: "unat (j + 1) = Suc (unat j)" if "j < k" for j k :: u32
    using that by unat_arith
  from 2 have "i < 0xFFFF"
    by simp
  then have "unat i < 0xFFFF" and "unat (i + 1) = Suc (unat i)"
    using succ [of i "0xFFFF"] by (simp_all add: word_less_nat_alt)
  then show ?case
    by simp
qed

subsection \<open>cmain\<close>

text \<open>
  Lines 40 to 100: the entry argument is shown, the image is scanned, and the two
  bounds are shown as \<^verbatim>\<open>S: <start>  E: <end>  \<close>. The result is the state and the
  locals \<^verbatim>\<open>loader_start\<close> and \<^verbatim>\<open>loader_end\<close>.
\<close>

definition cmain_diag :: "memory \<Rightarrow> u32 \<Rightarrow> state \<Rightarrow> u32 \<Rightarrow> (state \<times> u32 \<times> u32) option" where
  "cmain_diag stk num_str s addr =
     do {
       (stk, s) \<leftarrow> print_u32 stk num_str s addr;
       let (s, loader_start, loader_end) = scan_loop s 0 0 0;
       let s = vga_put s (of_char CHR ''S'');
       let s = vga_put s (of_char CHR '':'');
       let s = vga_put s (of_char CHR '' '');
       (stk, s) \<leftarrow> print_u32 stk num_str s loader_start;
       let s = vga_put s (of_char CHR '' '');
       let s = vga_put s (of_char CHR '' '');
       let s = vga_put s (of_char CHR ''E'');
       let s = vga_put s (of_char CHR '':'');
       let s = vga_put s (of_char CHR '' '');
       (stk, s) \<leftarrow> print_u32 stk num_str s loader_end;
       let s = vga_put s (of_char CHR '' '');
       let s = vga_put s (of_char CHR '' '');
       Some (s, loader_start, loader_end)
     }"

text \<open>
  Lines 102 to 105:
  \<^verbatim>\<open>u32 loader_size = loader_end - loader_start; u32 offset = 0x10000;\<close>
  \<^verbatim>\<open>memcpy((void*)(offset + loader_start), (void*)loader_start, loader_size);\<close>
\<close>

definition relocate :: "state \<Rightarrow> u32 \<Rightarrow> u32 \<Rightarrow> state" where
  "relocate s loader_start loader_end =
     (let loader_size = loader_end - loader_start;
          offset = 0x10000
      in s\<lparr>mem := memcpy (mem s) (offset + loader_start) loader_start loader_size\<rparr>)"

text \<open>
  Lines 107 to 112. The call through \<^verbatim>\<open>test_ptr\<close> runs the relocated copy of
  \<^verbatim>\<open>test\<close>, taken here to do what \<^verbatim>\<open>test\<close> does; then \<^verbatim>\<open>switch_to_rust(offset)\<close>
  leaves the stage. The result of \<open>cmain\<close> is the machine state at that call together
  with the argument passed to it.
\<close>

record handoff =
  machine :: state
  rust_arg :: u32

definition cmain :: "memory \<Rightarrow> u32 \<Rightarrow> state \<Rightarrow> u32 \<Rightarrow> handoff option" where
  "cmain stk num_str s addr =
     do {
       (s, loader_start, loader_end) \<leftarrow> cmain_diag stk num_str s addr;
       let s = relocate s loader_start loader_end;
       let offset = 0x10000;
       let s = test s;
       Some \<lparr>machine = s, rust_arg = offset\<rparr>
     }"

subsection \<open>The frame of cmain in raw memory\<close>







section \<open>Vocabulary of the properties\<close>

text \<open>
  The loops are unfolded by hand in the proofs, one round at a time.
\<close>

declare memcpy_loop.simps [simp del] digit_count_loop.simps [simp del]
  itoa_loop.simps [simp del] scan_loop.simps [simp del]

text \<open>The memory after the first \<open>k\<close> rounds of the copy loop, in the order the loop runs them.\<close>

primrec copy_steps :: "memory \<Rightarrow> u32 \<Rightarrow> u32 \<Rightarrow> nat \<Rightarrow> memory" where
  "copy_steps m d s 0 = m"
| "copy_steps m d s (Suc k) =
     (copy_steps m d s k)(d + of_nat k := copy_steps m d s k (s + of_nat k))"

text \<open>The unsigned decimal ASCII form of a number, most significant digit first.\<close>

fun decimal :: "nat \<Rightarrow> u8 list" where
  "decimal n =
     (if n < 10 then [of_nat n + 0x30] else decimal (n div 10) @ [of_nat (n mod 10) + 0x30])"

declare decimal.simps [simp del]

text \<open>Reading a string of decimal digits as a number.\<close>

definition parse_decimal :: "u8 list \<Rightarrow> nat" where
  "parse_decimal bs = foldl (\<lambda>acc c. 10 * acc + (unat c - 0x30)) 0 bs"

text \<open>The null-terminated string at an address: the bytes before the first zero byte.\<close>

definition c_string :: "memory \<Rightarrow> u32 \<Rightarrow> u8 list option" where
  "c_string m str = do { n \<leftarrow> strlen m str; Some (map (\<lambda>k. m (str + of_nat k)) [0..<unat n]) }"

text \<open>The text that follows the scan: \<^verbatim>\<open>S: <start>  E: <end>  \<close>.\<close>

definition bounds_text :: "u32 \<Rightarrow> u32 \<Rightarrow> u8 list" where
  "bounds_text loader_start loader_end =
     map of_char ''S: '' @ decimal (unat loader_start) @ map of_char ''  E: '' @
     decimal (unat loader_end) @ map of_char ''  ''"

text \<open>
  \<open>latest_start m i e ls r\<close>: after the offsets \<open>i\<close> to \<open>e\<close> have been tested with
  \<open>loader_start = ls\<close> on entry, \<open>r\<close> is the recorded start: the last offset in that range
  where the start sentinel matches, or \<open>ls\<close> still when none does.
\<close>

definition latest_start :: "memory \<Rightarrow> u32 \<Rightarrow> u32 \<Rightarrow> u32 \<Rightarrow> u32 \<Rightarrow> bool" where
  "latest_start m i e ls r \<longleftrightarrow>
     (r = ls \<and> (\<forall>k. i \<le> k \<and> k \<le> e \<longrightarrow> \<not> start_match m k)) \<or>
     (i \<le> r \<and> r \<le> e \<and> start_match m r \<and> (\<forall>k. r < k \<and> k \<le> e \<longrightarrow> \<not> start_match m k))"

text \<open>
  The text display of 80 by 25 cells starts at \<open>0xb8000\<close>; a cell is a character byte at
  an even address followed by its attribute byte at the next odd address.
\<close>

definition char_cell :: "u32 \<Rightarrow> bool" where
  "char_cell x \<longleftrightarrow> 0xb8000 \<le> x \<and> x < 0xb8fa0 \<and> even x"

definition attr_cell :: "u32 \<Rightarrow> bool" where
  "attr_cell x \<longleftrightarrow> 0xb8000 \<le> x \<and> x < 0xb8fa0 \<and> odd x"

text \<open>The bounds that the scan of a freshly booted image produces.\<close>

definition scan_image :: "memory \<Rightarrow> u32 \<times> u32" where
  "scan_image m = snd (scan_loop (boot m) 0 0 0)"


section \<open>Properties of the byte copy\<close>

lemma unat_succ: "(i::u32) < n \<Longrightarrow> unat (i + 1) = Suc (unat i)"
  by unat_arith

lemma memcpy_loop_steps:
  "i \<le> n \<Longrightarrow> memcpy_loop (copy_steps m d s (unat i)) d s n i = copy_steps m d s (unat n)"
proof (induction "unat n - unat i" arbitrary: i)
  case 0
  then have "i = n"
    by (simp add: word_le_nat_alt word_unat_eq_iff)
  then show ?case
    by (simp add: memcpy_loop.simps)
next
  case (Suc k)
  then have lt: "i < n"
    by (simp add: word_less_nat_alt)
  then have suc: "unat (i + 1) = Suc (unat i)"
    by (rule unat_succ)
  have le: "i + 1 \<le> n"
    using lt by (rule inc_le)
  have "k = unat n - unat (i + 1)"
    using Suc.hyps(2) suc by simp
  from Suc.hyps(1) [OF this le] show ?case
    using lt by (subst memcpy_loop.simps) (simp add: suc)
qed

lemma memcpy_steps: "memcpy m d s n = copy_steps m d s (unat n)"
  using memcpy_loop_steps [of 0 n m d s] by (simp add: memcpy_def)

lemma of_nat_add_inj:
  "i < 2 ^ 32 \<Longrightarrow> j < 2 ^ 32 \<Longrightarrow> (p :: u32) + of_nat i = p + of_nat j \<longleftrightarrow> i = j"
  by (simp add: word_of_nat_eq_iff take_bit_nat_eq_self)

lemma copy_steps_frame:
  "(\<And>i. i < k \<Longrightarrow> x \<noteq> d + of_nat i) \<Longrightarrow> copy_steps m d s k x = m x"
  by (induction k) simp_all

lemma copy_steps_disjoint:
  assumes "\<And>i j. i < k \<Longrightarrow> j < k \<Longrightarrow> d + of_nat i \<noteq> s + of_nat j" and "k \<le> 2 ^ 32"
  shows "i < k \<Longrightarrow> copy_steps m d s k (d + of_nat i) = m (s + of_nat i)"
  using assms
proof (induction k)
  case 0
  then show ?case by simp
next
  case (Suc k)
  have src: "copy_steps m d s k (s + of_nat j) = m (s + of_nat j)" if "j \<le> k" for j
    using that Suc.prems(2) by (intro copy_steps_frame) (metis le_imp_less_Suc less_SucI)
  show ?case
  proof (cases "i = k")
    case True
    then show ?thesis
      by (simp add: src)
  next
    case False
    then have "i < k"
      using Suc.prems(1) by simp
    moreover have "d + of_nat i \<noteq> d + of_nat k"
      using \<open>i < k\<close> Suc.prems(3) of_nat_add_inj [of i k d] by simp
    ultimately show ?thesis
      using Suc.IH Suc.prems by simp
  qed
qed

lemma of_nat_unat_less: "(i::u32) < n \<Longrightarrow> unat i < unat n"
  by (simp add: word_less_nat_alt)

lemma word_of_nat_less: "k < unat (n::u32) \<Longrightarrow> of_nat k < n"
proof -
  assume a: "k < unat n"
  moreover have "unat n < 2 ^ 32"
    using unsigned_less [of n, where ?'a = nat] by simp
  ultimately have "unat (of_nat k :: u32) = k"
    by (simp add: unat_of_nat)
  with a show ?thesis
    by (simp add: word_less_nat_alt)
qed

lemma memcpy_frame:
  assumes "\<And>i. i < n \<Longrightarrow> x \<noteq> dest + i"
  shows "memcpy m dest src n x = m x"
proof -
  have "x \<noteq> dest + of_nat k" if "k < unat n" for k
  proof -
    have "(of_nat k :: u32) < n"
      using that by (rule word_of_nat_less)
    then show ?thesis
      by (rule assms)
  qed
  then show ?thesis
    by (simp add: memcpy_steps copy_steps_frame)
qed

lemma memcpy_disjoint:
  assumes disj: "\<And>i j. i < n \<Longrightarrow> j < n \<Longrightarrow> dest + i \<noteq> src + j" and "i < n"
  shows "memcpy m dest src n (dest + i) = m (src + i)"
proof -
  have lt: "(of_nat k :: u32) < n" if "k < unat n" for k
    using that by (rule word_of_nat_less)
  have "dest + of_nat k \<noteq> src + of_nat l" if "k < unat n" "l < unat n" for k l
    using that by (intro disj lt)
  moreover have "unat n \<le> 2 ^ 32"
    using unsigned_less [of n, where ?'a = nat] by simp
  moreover have "unat i < unat n"
    using \<open>i < n\<close> by (rule of_nat_unat_less)
  ultimately have "copy_steps m dest src (unat n) (dest + of_nat (unat i)) = m (src + of_nat (unat i))"
    by (intro copy_steps_disjoint) auto
  then show ?thesis
    by (simp add: memcpy_steps)
qed

lemma memcpy_ascending:
  assumes "n + 1 \<noteq> 0"
  shows "memcpy m dest src (n + 1) = (memcpy m dest src n)(dest + n := memcpy m dest src n (src + n))"
proof -
  have "unat (n + 1) = Suc (unat n)"
    using assms by (metis add.commute unatSuc)
  then show ?thesis
    by (simp add: memcpy_steps)
qed

lemma reloc_disjoint:
  fixes ls i j n :: u32
  assumes "i < n" "j < n" "n \<le> 0x10000"
  shows "0x10000 + ls + i \<noteq> ls + j"
proof
  assume "0x10000 + ls + i = ls + j"
  then have eq: "j = 0x10000 + i"
    by (simp add: algebra_simps)
  have "unat i < 0x10000"
    using assms(1,3) by (simp add: word_less_nat_alt word_le_nat_alt)
  then have "unat (0x10000 + i) = 0x10000 + unat i"
    by (simp add: unat_word_ariths)
  moreover have "unat j < 0x10000"
    using assms(2,3) by (simp add: word_less_nat_alt word_le_nat_alt)
  ultimately show False
    using eq by simp
qed

lemma relocate_exact:
  assumes "n \<le> 0x10000" "i < n"
  shows "mem (relocate s ls (ls + n)) (0x10000 + ls + i) = mem s (ls + i)"
  using assms by (simp add: relocate_def memcpy_disjoint reloc_disjoint)

text \<open>
  Claim C6. For every count \<open>n\<close> and every source and destination range of \<open>n\<close> bytes
  that share no address, after \<open>memcpy\<close> the \<open>n\<close> destination bytes are the original
  \<open>n\<close> source bytes and every address outside the destination range is unchanged. The
  copy runs from the lowest to the highest address: copying \<open>n + 1\<close> bytes is copying
  \<open>n\<close> bytes and then the byte at index \<open>n\<close>. In particular the relocation of a
  payload of 0, 1 or 1024 bytes leaves the destination at \<open>0x10000 + loader_start\<close>
  byte-identical to the original source.
\<close>

theorem memcpy_copies_disjoint_ranges:
  "((\<forall>i j. i < n \<longrightarrow> j < n \<longrightarrow> dest + i \<noteq> src + j) \<longrightarrow>
      (\<forall>i. i < n \<longrightarrow> memcpy m dest src n (dest + i) = m (src + i)) \<and>
      (\<forall>x. (\<forall>i. i < n \<longrightarrow> x \<noteq> dest + i) \<longrightarrow> memcpy m dest src n x = m x)) \<and>
   (n + 1 \<noteq> 0 \<longrightarrow>
      memcpy m dest src (n + 1) = (memcpy m dest src n)(dest + n := memcpy m dest src n (src + n))) \<and>
   (\<forall>k \<in> {0, 1, 1024}. \<forall>i. i < k \<longrightarrow>
      mem (relocate s ls (ls + k)) (0x10000 + ls + i) = mem s (ls + i))"
proof (intro conjI impI allI ballI)
  fix i
  assume "\<forall>i j. i < n \<longrightarrow> j < n \<longrightarrow> dest + i \<noteq> src + j" and "i < n"
  then show "memcpy m dest src n (dest + i) = m (src + i)"
    by (intro memcpy_disjoint) auto
next
  fix x
  assume "\<forall>i. i < n \<longrightarrow> x \<noteq> dest + i"
  then show "memcpy m dest src n x = m x"
    by (intro memcpy_frame) auto
next
  assume "n + 1 \<noteq> 0"
  then show "memcpy m dest src (n + 1) = (memcpy m dest src n)(dest + n := memcpy m dest src n (src + n))"
    by (rule memcpy_ascending)
next
  fix k i :: u32
  assume "k \<in> {0, 1, 1024}" and "i < k"
  then show "mem (relocate s ls (ls + k)) (0x10000 + ls + i) = mem s (ls + i)"
    by (intro relocate_exact) auto
qed

theorem memcpy_copies_disjoint_ranges_witness:
  "memcpy (\<lambda>a. ucast a) 0x10004 4 8 0x10007 = 7 \<and>
   memcpy (\<lambda>a. ucast a) 0x10004 4 8 0x20000 = 0 \<and>
   memcpy (\<lambda>a. ucast a) 0x10004 4 (8 + 1) 0x1000C = 12 \<and>
   mem (relocate (boot (\<lambda>a. ucast a)) 4 (4 + 1024)) 0x10203 = 3"
proof -
  let ?m = "\<lambda>a::u32. ucast a :: u8"
  note inst = memcpy_copies_disjoint_ranges [of 8 "0x10004" 4 "?m" "boot ?m" 4]
  have disj: "\<forall>i j :: u32. i < 8 \<longrightarrow> j < 8 \<longrightarrow> 0x10004 + i \<noteq> 4 + j"
    using reloc_disjoint [of _ 8 _ 4] by simp
  note copied = inst [THEN conjunct1, THEN mp, OF disj, THEN conjunct1, rule_format]
  note frame = inst [THEN conjunct1, THEN mp, OF disj, THEN conjunct2, rule_format]
  note ascending = inst [THEN conjunct2, THEN conjunct1, rule_format]
  note reloc = inst [THEN conjunct2, THEN conjunct2, rule_format]
  have off: "x \<noteq> 0x10004 + i" if "i < 8" "0x1000C \<le> x \<or> x < 0x10004" for i x :: u32
  proof -
    have "unat i < 8"
      using that(1) by (simp add: word_less_nat_alt)
    then have "unat (0x10004 + i) = 0x10004 + unat i"
      by (simp add: unat_word_ariths)
    then show ?thesis
      using that(2) \<open>unat i < 8\<close> by (auto simp: word_less_nat_alt word_le_nat_alt)
  qed
  have a: "memcpy ?m 0x10004 4 8 0x10007 = 7"
    using copied [of 3] by simp
  have b: "memcpy ?m 0x10004 4 8 0x20000 = 0"
    using frame [of "0x20000"] off [of _ "0x20000"] by simp
  have "memcpy ?m 0x10004 4 8 12 = 12"
    using frame [of 12] off [of _ 12] by simp
  then have c: "memcpy ?m 0x10004 4 (8 + 1) 0x1000C = 12"
    using ascending by simp
  have d: "mem (relocate (boot ?m) 4 (4 + 1024)) 0x10203 = 3"
    using reloc [of 1024 "0x1FF"] by (simp add: boot_def)
  from a b c d show ?thesis
    by simp
qed

section \<open>Properties of the decimal renderer\<close>

lemma decimal_small: "n < 10 \<Longrightarrow> decimal n = [of_nat n + 0x30]"
  by (simp add: decimal.simps)

lemma decimal_large:
  "10 \<le> n \<Longrightarrow> decimal n = decimal (n div 10) @ [of_nat (n mod 10) + 0x30]"
  by (subst decimal.simps) simp

lemma decimal_length_pos: "0 < length (decimal n)"
  by (cases "n < 10") (simp_all add: decimal_small decimal_large)

lemma decimal_length_pow: "0 < k \<Longrightarrow> n < 10 ^ k \<Longrightarrow> length (decimal n) \<le> k"
proof (induction k arbitrary: n)
  case 0
  then show ?case by simp
next
  case (Suc k)
  show ?case
  proof (cases "n < 10")
    case True
    then show ?thesis
      by (simp add: decimal_small)
  next
    case False
    then have "0 < k"
      using Suc.prems by (cases k) simp_all
    moreover have "n div 10 < 10 ^ k"
      using Suc.prems(2) by (simp add: less_mult_imp_div_less mult.commute)
    ultimately have "length (decimal (n div 10)) \<le> k"
      by (rule Suc.IH)
    then show ?thesis
      using False by (simp add: decimal_large)
  qed
qed

lemma decimal_length_u32: "length (decimal (unat (num::u32))) \<le> 10"
proof -
  have "unat num < 2 ^ 32"
    using unsigned_less [of num, where ?'a = nat] by simp
  then have "unat num < 10 ^ 10"
    by simp
  then show ?thesis
    by (intro decimal_length_pow) simp_all
qed

lemma digit_byte: "d < 10 \<Longrightarrow> unat (of_nat d + 0x30 :: u8) = d + 0x30"
  by (simp add: unat_word_ariths unat_of_nat)

lemma decimal_nonzero: "c \<in> set (decimal n) \<Longrightarrow> c \<noteq> 0"
proof (induction n rule: decimal.induct)
  case (1 n)
  have nz: "(of_nat d + 0x30 :: u8) \<noteq> 0" if "d < 10" for d
  proof
    assume "of_nat d + 0x30 = (0::u8)"
    then have "unat (of_nat d + 0x30 :: u8) = 0"
      by simp
    then show False
      using digit_byte [OF that] by simp
  qed
  show ?case
  proof (cases "n < 10")
    case True
    then have "c = of_nat n + 0x30"
      using "1.prems" by (simp add: decimal_small)
    with nz [OF True] show ?thesis
      by (simp only: not_False_eq_True)
  next
    case False
    then have "c \<in> set (decimal (n div 10)) \<or> c = of_nat (n mod 10) + 0x30"
      using "1.prems" by (simp add: decimal_large) (simp only: disj_commute)
    moreover have "n mod 10 < 10"
      by simp
    ultimately show ?thesis
      using "1.IH" [OF False] nz [of "n mod 10"] by (elim disjE) (simp_all only: not_False_eq_True)
  qed
qed

lemma parse_decimal_snoc:
  "parse_decimal (bs @ [c]) = 10 * parse_decimal bs + (unat c - 0x30)"
  by (simp add: parse_decimal_def)

lemma parse_decimal_inverse: "parse_decimal (decimal n) = n"
proof (induction n rule: decimal.induct)
  case (1 n)
  show ?case
  proof (cases "n < 10")
    case True
    then show ?thesis
      using parse_decimal_snoc [of "[]" "of_nat n + 0x30"]
      by (simp add: decimal_small digit_byte parse_decimal_def)
  next
    case False
    then have "parse_decimal (decimal (n div 10)) = n div 10"
      by (rule "1.IH")
    then show ?thesis
      using False by (simp add: decimal_large parse_decimal_snoc digit_byte)
  qed
qed

lemma unat_div10: "unat ((num::u32) div 10) = unat num div 10"
  by (simp add: unat_div)

lemma div10_zero_iff: "(num::u32) div 10 = 0 \<longleftrightarrow> unat num < 10"
proof -
  have "num div 10 = 0 \<longleftrightarrow> unat (num div 10) = 0"
    by (simp add: unat_eq_zero)
  also have "\<dots> \<longleftrightarrow> unat num div 10 = 0"
    by (simp add: unat_div10)
  also have "\<dots> \<longleftrightarrow> unat num < 10"
    by (simp add: div_eq_0_iff)
  finally show ?thesis .
qed


lemma digit_count_loop_decimal:
  "num \<noteq> 0 \<Longrightarrow> digit_count_loop count num = count + of_nat (length (decimal (unat num)))"
proof (induction count num rule: digit_count_loop.induct)
  case (1 count num)
  then have pos: "0 < num"
    by (simp add: word_greater_zero_iff)
  show ?case
  proof (cases "num div 10 = 0")
    case True
    then have "unat num < 10"
      by (simp add: div10_zero_iff)
    then show ?thesis
      using pos True
      by (subst digit_count_loop.simps, subst digit_count_loop.simps) (simp add: decimal_small)
  next
    case False
    then have "10 \<le> unat num"
      by (simp add: div10_zero_iff)
    then show ?thesis
      using pos "1.IH" [OF pos False]
      by (subst digit_count_loop.simps) (simp add: decimal_large unat_div10)
  qed
qed

lemma digit_count_decimal: "digit_count num = of_nat (length (decimal (unat num)))"
  by (simp add: digit_count_def digit_count_loop_decimal decimal_small)

lemma ucast_mod10: "(ucast ((num::u32) mod 10) :: u8) = of_nat (unat num mod 10)"
proof -
  have "(ucast (num mod 10) :: u8) = of_nat (unat (num mod 10))"
    by simp
  then show ?thesis
    by (simp only: unat_mod) simp
qed

lemma unat_index_pred: "Suc (unat (index::u32)) = Suc (Suc l) \<Longrightarrow> unat (index - 1) = l"
proof -
  assume "Suc (unat index) = Suc (Suc l)"
  then have "unat index = Suc l"
    by simp
  then have "index \<noteq> 0"
    by auto
  then have "unat (index - 1) = unat index - 1"
    by (simp add: unat_minus_one)
  with \<open>unat index = Suc l\<close> show ?thesis
    by simp
qed

lemma decimal_length_large: "10 \<le> n \<Longrightarrow> length (decimal n) = Suc (length (decimal (n div 10)))"
  by (simp add: decimal_large)

lemma itoa_loop_frame:
  "Suc (unat index) = length (decimal (unat num)) \<Longrightarrow>
   (\<And>k. k \<le> unat index \<Longrightarrow> x \<noteq> number + of_nat k) \<Longrightarrow>
   itoa_loop m number index num x = m x"
proof (induction m number index num rule: itoa_loop.induct)
  case (1 m number index num)
  show ?case
  proof (cases "num = 0")
    case True
    then show ?thesis
      by (simp add: itoa_loop.simps)
  next
    case False
    have here: "x \<noteq> number + index"
      using "1.prems"(2) [of "unat index"] by simp
    show ?thesis
    proof (cases "unat num < 10")
      case True
      then have "num div 10 = 0"
        by (simp add: div10_zero_iff)
      then show ?thesis
        using False here
        by (subst itoa_loop.simps, subst itoa_loop.simps) simp
    next
      case big: False
      then have len: "length (decimal (unat num)) = Suc (length (decimal (unat (num div 10))))"
        by (simp add: decimal_length_large unat_div10)
      obtain l where l: "length (decimal (unat (num div 10))) = Suc l"
        using decimal_length_pos [of "unat (num div 10)"] by (cases "length (decimal (unat (num div 10)))") auto
      have pred: "unat (index - 1) = l"
        using "1.prems"(1) len l by (intro unat_index_pred) simp
      have idx: "unat index = Suc l"
        using "1.prems"(1) len l by simp
      have "itoa_loop (m(number + index := ucast (num mod 10) + 0x30)) number (index - 1) (num div 10) x =
          (m(number + index := ucast (num mod 10) + 0x30)) x"
      proof (rule "1.IH" [OF False])
        show "Suc (unat (index - 1)) = length (decimal (unat (num div 10)))"
          using pred l by simp
        show "x \<noteq> number + of_nat k" if "k \<le> unat (index - 1)" for k
          using that pred idx by (intro "1.prems"(2)) simp
      qed
      then show ?thesis
        using False here by (subst itoa_loop.simps) simp
    qed
  qed
qed

lemma itoa_loop_digits:
  "num \<noteq> 0 \<Longrightarrow> Suc (unat index) = length (decimal (unat num)) \<Longrightarrow> k \<le> unat index \<Longrightarrow>
   itoa_loop m number index num (number + of_nat k) = decimal (unat num) ! k"
proof (induction m number index num arbitrary: k rule: itoa_loop.induct)
  case (1 m number index num)
  let ?d = "ucast (num mod 10) + 0x30 :: u8"
  let ?m' = "m(number + index := ?d)"
  have d: "?d = of_nat (unat num mod 10) + 0x30"
    by (simp only: ucast_mod10)
  show ?case
  proof (cases "unat num < 10")
    case True
    then have "num div 10 = 0"
      by (simp add: div10_zero_iff)
    then have loop: "itoa_loop m number index num = ?m'"
      using "1.prems"(1) by (subst itoa_loop.simps, subst itoa_loop.simps) simp
    have "unat index = 0"
      using "1.prems"(2) True by (simp add: decimal_small)
    then have "k = 0" and "index = 0"
      using "1.prems"(3) by (simp_all add: unat_eq_zero)
    then have "number + of_nat k = number + index"
      by simp
    moreover have "itoa_loop m number index num (number + index) = ?d"
      by (simp add: loop)
    moreover have "decimal (unat num) ! k = ?d"
      using True \<open>k = 0\<close> by (simp add: decimal_small d)
    ultimately show ?thesis
      by (simp only:)
  next
    case big: False
    then have nz: "num div 10 \<noteq> 0"
      by (simp add: div10_zero_iff)
    have dec: "decimal (unat num) = decimal (unat (num div 10)) @ [?d]"
      using big by (simp add: decimal_large unat_div10 d)
    obtain l where l: "length (decimal (unat (num div 10))) = Suc l"
      using decimal_length_pos [of "unat (num div 10)"] by (cases "length (decimal (unat (num div 10)))") auto
    have idx: "unat index = Suc l"
      using "1.prems"(2) dec l by simp
    then have pred: "unat (index - 1) = l"
      by (intro unat_index_pred) simp
    have loop: "itoa_loop m number index num = itoa_loop ?m' number (index - 1) (num div 10)"
      using "1.prems"(1) by (subst itoa_loop.simps) simp
    have bound: "Suc l < 2 ^ 32"
      using idx unsigned_less [of index, where ?'a = nat] by simp
    show ?thesis
    proof (cases "k = Suc l")
      case True
      have "itoa_loop ?m' number (index - 1) (num div 10) (number + index) = ?m' (number + index)"
      proof (rule itoa_loop_frame)
        show "Suc (unat (index - 1)) = length (decimal (unat (num div 10)))"
          using pred l by simp
        show "number + index \<noteq> number + of_nat j" if "j \<le> unat (index - 1)" for j
        proof -
          have "number + of_nat (Suc l) \<noteq> number + of_nat j"
            using that pred bound of_nat_add_inj [of "Suc l" j number] by simp
          moreover have "of_nat (Suc l) = index"
            using idx [symmetric] by simp
          ultimately show ?thesis
            by simp
        qed
      qed
      moreover have "of_nat k = index"
        using idx [symmetric] True by simp
      ultimately show ?thesis
        using True l by (simp add: loop dec nth_append)
    next
      case False
      then have "k \<le> unat (index - 1)"
        using "1.prems"(3) idx pred by simp
      moreover have "Suc (unat (index - 1)) = length (decimal (unat (num div 10)))"
        using pred l by simp
      ultimately have "itoa_loop ?m' number (index - 1) (num div 10) (number + of_nat k) =
          decimal (unat (num div 10)) ! k"
        using "1.prems"(1) nz by (intro "1.IH")
      moreover have "k < length (decimal (unat (num div 10)))"
        using \<open>k \<le> unat (index - 1)\<close> pred l by simp
      ultimately show ?thesis
        by (simp add: loop dec nth_append)
    qed
  qed
qed

lemma unat_of_nat_small: "l \<le> 10 \<Longrightarrow> unat (of_nat l :: u32) = l"
  by (simp add: unat_of_nat)

lemma digit_index: "unat (digit_count num - 1) = length (decimal (unat num)) - 1"
proof -
  let ?L = "length (decimal (unat num))"
  obtain l where l: "?L = Suc l"
    using decimal_length_pos [of "unat num"] by (cases ?L) auto
  then have "l \<le> 10"
    using decimal_length_u32 [of num] by simp
  have "digit_count num - 1 = of_nat l"
    by (simp add: digit_count_decimal l)
  then show ?thesis
    using \<open>l \<le> 10\<close> l by (simp add: unat_of_nat_small)
qed

lemma itoa_zero: "itoa 0 m number = (m(number := 0x30))(number + 1 := 0)"
  by (simp add: itoa_def digit_count_def)

lemma itoa_nonzero:
  "num \<noteq> 0 \<Longrightarrow>
   itoa num m number = (itoa_loop m number (digit_count num - 1) num)(number + digit_count num := 0)"
  by (simp add: itoa_def Let_def)

lemma digit_addr_neq:
  "k < l \<Longrightarrow> l \<le> 10 \<Longrightarrow> (number::u32) + of_nat k \<noteq> number + of_nat l"
  using of_nat_add_inj [of k l number] by simp

lemma itoa_digits:
  assumes "k < length (decimal (unat num))"
  shows "itoa num m number (number + of_nat k) = decimal (unat num) ! k"
proof (cases "num = 0")
  case True
  then have "k = 0"
    using assms by (simp add: decimal_small)
  then show ?thesis
    using True by (simp add: itoa_zero decimal_small)
next
  case False
  let ?L = "length (decimal (unat num))"
  have idx: "Suc (unat (digit_count num - 1)) = ?L"
    using decimal_length_pos [of "unat num"] by (simp add: digit_index)
  have "number + of_nat k \<noteq> number + of_nat ?L"
    using assms decimal_length_u32 [of num] by (intro digit_addr_neq)
  then have "itoa num m number (number + of_nat k) =
      itoa_loop m number (digit_count num - 1) num (number + of_nat k)"
    using False by (simp add: itoa_nonzero digit_count_decimal)
  also have "\<dots> = decimal (unat num) ! k"
    using False idx assms by (intro itoa_loop_digits) simp_all
  finally show ?thesis .
qed

lemma itoa_terminator:
  "itoa num m number (number + of_nat (length (decimal (unat num)))) = 0"
proof (cases "num = 0")
  case True
  then show ?thesis
    by (simp add: itoa_zero decimal_small)
next
  case False
  then show ?thesis
    by (simp add: itoa_nonzero digit_count_decimal)
qed


lemma strlen_loop_found:
  assumes "\<And>k. k < L \<Longrightarrow> m (str + of_nat k) \<noteq> 0" and "m (str + of_nat L) = 0"
  shows "j \<le> L \<Longrightarrow> strlen_loop m str (of_nat j) = Some (of_nat L)"
proof (induction "L - j" arbitrary: j)
  case 0
  then have "j = L"
    by simp
  then show ?case
    using assms(2) by (subst strlen_loop.simps) simp
next
  case (Suc d)
  then have "j < L"
    by simp
  then have "m (str + of_nat j) \<noteq> 0"
    by (rule assms(1))
  moreover have "strlen_loop m str (of_nat (Suc j)) = Some (of_nat L)"
    using Suc.hyps(2) \<open>j < L\<close> by (intro Suc.hyps(1)) simp_all
  ultimately show ?case
    by (subst strlen_loop.simps) (simp add: add.commute)
qed

lemma strlen_found:
  "(\<And>k. k < L \<Longrightarrow> m (str + of_nat k) \<noteq> 0) \<Longrightarrow> m (str + of_nat L) = 0 \<Longrightarrow>
   strlen m str = Some (of_nat L)"
  using strlen_loop_found [of L m str 0] by (simp add: strlen_def)

lemma strlen_itoa:
  "strlen (itoa num m number) number = Some (of_nat (length (decimal (unat num))))"
proof (rule strlen_found)
  fix k
  assume "k < length (decimal (unat num))"
  then show "itoa num m number (number + of_nat k) \<noteq> 0"
    using decimal_nonzero [of "decimal (unat num) ! k" "unat num"] by (simp add: itoa_digits)
next
  show "itoa num m number (number + of_nat (length (decimal (unat num)))) = 0"
    by (rule itoa_terminator)
qed

lemma itoa_bytes:
  "map (\<lambda>k. itoa num m number (number + of_nat k)) [0..<length (decimal (unat num))] =
   decimal (unat num)"
  by (rule nth_equalityI) (simp_all add: itoa_digits)

lemma c_string_itoa: "c_string (itoa num m number) number = Some (decimal (unat num))"
  using decimal_length_u32 [of num]
  by (simp add: c_string_def strlen_itoa unat_of_nat_small itoa_bytes)

lemma decimal_zero: "decimal 0 = map of_char ''0''"
  by (simp add: decimal.simps)

lemma decimal_max: "decimal 4294967295 = map of_char ''4294967295''"
  by (simp add: decimal.simps)

text \<open>
  Claim C7. \<open>itoa\<close> writes the unsigned decimal ASCII form of its 32-bit input,
  followed by a zero byte: the string at the buffer is the decimal form of the input,
  and reading it back as a decimal number gives the input. Rendering 0 gives \<open>0\<close>,
  rendering 4294967295 gives \<open>4294967295\<close>, and each of 0, 1, 9, 10, 999 and 4294967295
  is reproduced by parsing its rendering.
\<close>

theorem itoa_renders_decimal:
  "c_string (itoa num m number) number = Some (decimal (unat num)) \<and>
   itoa num m number (number + of_nat (length (decimal (unat num)))) = 0 \<and>
   parse_decimal (decimal (unat num)) = unat num \<and>
   c_string (itoa 0 m number) number = Some (map of_char ''0'') \<and>
   c_string (itoa 4294967295 m number) number = Some (map of_char ''4294967295'') \<and>
   (\<forall>v \<in> {0, 1, 9, 10, 999, 4294967295}.
      \<exists>bs. c_string (itoa v m number) number = Some bs \<and> parse_decimal bs = unat v)"
proof (intro conjI ballI)
  show "c_string (itoa num m number) number = Some (decimal (unat num))"
    by (rule c_string_itoa)
  show "itoa num m number (number + of_nat (length (decimal (unat num)))) = 0"
    by (rule itoa_terminator)
  show "parse_decimal (decimal (unat num)) = unat num"
    by (rule parse_decimal_inverse)
  show "c_string (itoa 0 m number) number = Some (map of_char ''0'')"
    using decimal_zero by (simp add: c_string_itoa)
  show "c_string (itoa 4294967295 m number) number = Some (map of_char ''4294967295'')"
    using decimal_max by (simp add: c_string_itoa)
  show "\<exists>bs. c_string (itoa v m number) number = Some bs \<and> parse_decimal bs = unat v" for v
    by (simp add: c_string_itoa parse_decimal_inverse)
qed

theorem itoa_renders_decimal_witness:
  "c_string (itoa 999 (\<lambda>a. 0xFF) 0x7000) 0x7000 = Some [0x39, 0x39, 0x39] \<and>
   itoa 999 (\<lambda>a. 0xFF) 0x7000 0x7003 = 0 \<and>
   parse_decimal [0x39, 0x39, 0x39] = 999 \<and>
   (\<exists>bs. c_string (itoa 10 (\<lambda>a. 0xFF) 0x7000) 0x7000 = Some bs \<and> parse_decimal bs = 10)"
proof -
  note inst = itoa_renders_decimal [of 999 "\<lambda>a. 0xFF" "0x7000"]
  have dec: "decimal (unat (999::u32)) = [0x39, 0x39, 0x39]"
    by (simp add: decimal.simps)
  have "(10::u32) \<in> {0, 1, 9, 10, 999, 4294967295}"
    by simp
  with inst have "\<exists>bs. c_string (itoa 10 (\<lambda>a. 0xFF) 0x7000) 0x7000 = Some bs \<and> parse_decimal bs = unat (10::u32)"
    by blast
  then show ?thesis
    using inst dec by simp
qed

section \<open>Properties of the diagnostic writer\<close>

lemma vga_address_put: "vga_address (vga_put s c) = vga_address s + 2"
  by (simp add: vga_put_def)

lemma mem_put: "mem (vga_put s c) = (mem s)(vga_address s + 2 := c)"
  by (simp add: vga_put_def)

lemma foldl_vga_put_snoc: "foldl vga_put s (bs @ [c]) = vga_put (foldl vga_put s bs) c"
  by simp

lemma vga_address_text:
  "vga_address (foldl vga_put s bs) = vga_address s + 2 * of_nat (length bs)"
  by (induction bs rule: rev_induct) (simp_all add: vga_address_put algebra_simps)

lemma mem_text_frame:
  "(\<And>k. k < length bs \<Longrightarrow> x \<noteq> vga_address s + 2 * of_nat (Suc k)) \<Longrightarrow>
   mem (foldl vga_put s bs) x = mem s x"
proof (induction bs rule: rev_induct)
  case Nil
  then show ?case by simp
next
  case (snoc c bs)
  have "x \<noteq> vga_address s + 2 * of_nat (Suc (length bs))"
    by (rule snoc.prems) simp
  moreover have "mem (foldl vga_put s bs) x = mem s x"
    by (rule snoc.IH, rule snoc.prems) simp
  ultimately show ?case
    by (simp add: mem_put vga_address_text algebra_simps)
qed

lemma cell_addr_inj:
  "k < 2 ^ 31 \<Longrightarrow> l < 2 ^ 31 \<Longrightarrow>
   (a::u32) + 2 * of_nat k = a + 2 * of_nat l \<longleftrightarrow> k = l"
proof -
  assume "k < 2 ^ 31" and "l < 2 ^ 31"
  then have "2 * k < 2 ^ 32" and "2 * l < 2 ^ 32"
    by simp_all
  then have "a + of_nat (2 * k) = a + of_nat (2 * l) \<longleftrightarrow> 2 * k = 2 * l"
    by (rule of_nat_add_inj)
  then show ?thesis
    by simp
qed

lemma mem_text_cell:
  "k < length bs \<Longrightarrow> length bs < 2 ^ 31 \<Longrightarrow>
   mem (foldl vga_put s bs) (vga_address s + 2 * of_nat (Suc k)) = bs ! k"
proof (induction bs rule: rev_induct)
  case Nil
  then show ?case by simp
next
  case (snoc c bs)
  show ?case
  proof (cases "k = length bs")
    case True
    then show ?thesis
      by (simp add: mem_put vga_address_text algebra_simps)
  next
    case False
    then have k: "k < length bs"
      using snoc.prems(1) by simp
    have "vga_address s + 2 * of_nat (Suc k) \<noteq> vga_address s + 2 * of_nat (Suc (length bs))"
      using k snoc.prems(2) cell_addr_inj [of "Suc k" "Suc (length bs)" "vga_address s"] by simp
    moreover have "mem (foldl vga_put s bs) (vga_address s + 2 * of_nat (Suc k)) = bs ! k"
      using k snoc.prems(2) by (intro snoc.IH) simp_all
    ultimately show ?thesis
      using k by (simp add: mem_put vga_address_text algebra_simps nth_append)
  qed
qed

lemma print_loop_text:
  assumes "strlen stk num_str = Some n"
  shows "i \<le> n \<Longrightarrow> print_loop stk num_str s i =
    Some (foldl vga_put s (map (\<lambda>k. stk (num_str + of_nat k)) [unat i..<unat n]))"
proof (induction "unat n - unat i" arbitrary: i s)
  case 0
  then have "\<not> i < n"
    by (simp add: word_less_nat_alt)
  moreover have "unat n \<le> unat i"
    using 0 by simp
  ultimately show ?case
    using assms by (subst print_loop.simps) simp
next
  case (Suc d)
  then have lt: "i < n"
    by (simp add: word_less_nat_alt)
  then have suc: "unat (i + 1) = Suc (unat i)"
    by (rule unat_succ)
  have "print_loop stk num_str (vga_put s (stk (num_str + i))) (i + 1) =
      Some (foldl vga_put (vga_put s (stk (num_str + i)))
        (map (\<lambda>k. stk (num_str + of_nat k)) [unat (i + 1)..<unat n]))"
    using Suc.hyps(2) suc lt by (intro Suc.hyps(1) inc_le) simp_all
  moreover have "[unat i..<unat n] = unat i # [unat (i + 1)..<unat n]"
    using lt suc by (simp add: upt_conv_Cons word_less_nat_alt)
  ultimately show ?case
    using assms lt by (subst print_loop.simps) simp
qed

lemma print_u32_text:
  "print_u32 stk num_str s v =
   Some (itoa v (memset stk num_str 0 32) num_str, foldl vga_put s (decimal (unat v)))"
proof -
  let ?stk = "itoa v (memset stk num_str 0 32) num_str"
  have "print_loop ?stk num_str s 0 =
      Some (foldl vga_put s (map (\<lambda>k. ?stk (num_str + of_nat k))
        [unat (0::u32)..<unat (of_nat (length (decimal (unat v))) :: u32)]))"
    by (intro print_loop_text strlen_itoa) simp
  then show ?thesis
    using decimal_length_u32 [of v]
    by (simp add: print_u32_def Let_def unat_of_nat_small itoa_bytes)
qed

lemma cmain_diag_text:
  "cmain_diag stk num_str s addr =
   (case scan_loop (foldl vga_put s (decimal (unat addr))) 0 0 0 of
      (s', loader_start, loader_end) \<Rightarrow>
        Some (foldl vga_put s' (bounds_text loader_start loader_end), loader_start, loader_end))"
  by (simp add: cmain_diag_def print_u32_text bounds_text_def split: prod.split)

section \<open>Properties of the sentinel scan\<close>

lemma succ_le_iff: "(i::u32) < e \<Longrightarrow> i + 1 \<le> k \<longleftrightarrow> i < k"
  by (simp add: word_le_nat_alt word_less_nat_alt unat_succ Suc_le_eq)

lemma le_iff_eq_or_succ: "(i::u32) < e \<Longrightarrow> i \<le> k \<longleftrightarrow> k = i \<or> i + 1 \<le> k"
  by (auto simp: succ_le_iff)

lemma latest_start_single:
  "latest_start m e e ls (if start_match m e then e else ls)"
  by (auto simp: latest_start_def)

lemma latest_start_step:
  assumes "i < e" and "latest_start m (i + 1) e (if start_match m i then i else ls) r"
  shows "latest_start m i e ls r"
proof -
  have le: "i \<le> k \<longleftrightarrow> k = i \<or> i + 1 \<le> k" for k
    using assms(1) by (rule le_iff_eq_or_succ)
  have lt: "i + 1 \<le> k \<longleftrightarrow> i < k" for k
    using assms(1) by (rule succ_le_iff)
  from assms(2) consider
    (none) "r = (if start_match m i then i else ls)" "\<forall>k. i + 1 \<le> k \<and> k \<le> e \<longrightarrow> \<not> start_match m k"
    | (later) "i + 1 \<le> r" "r \<le> e" "start_match m r" "\<forall>k. r < k \<and> k \<le> e \<longrightarrow> \<not> start_match m k"
    unfolding latest_start_def by blast
  then show ?thesis
  proof cases
    case none
    show ?thesis
    proof (cases "start_match m i")
      case True
      then have "i \<le> r \<and> r \<le> e \<and> start_match m r \<and> (\<forall>k. r < k \<and> k \<le> e \<longrightarrow> \<not> start_match m k)"
        using none assms(1) lt by auto
      then show ?thesis
        unfolding latest_start_def by blast
    next
      case False
      then have "r = ls \<and> (\<forall>k. i \<le> k \<and> k \<le> e \<longrightarrow> \<not> start_match m k)"
        using none le by auto
      then show ?thesis
        unfolding latest_start_def by blast
    qed
  next
    case later
    then have "i \<le> r"
      using le by blast
    with later show ?thesis
      unfolding latest_start_def by blast
  qed
qed

lemma scan_loop_stops:
  assumes "e \<le> 0xFFFF" and "end_match (mem s) e \<or> e = 0xFFFF"
  shows "i \<le> e \<Longrightarrow> (\<And>k. i \<le> k \<Longrightarrow> k < e \<Longrightarrow> \<not> end_match (mem s) k) \<Longrightarrow>
    \<exists>r. latest_start (mem s) i e ls r \<and>
      scan_loop s ls le i = (if end_match (mem s) e then (s, r, e) else (poop s, r, le))"
proof (induction "unat e - unat i" arbitrary: i ls)
  case 0
  then have "i = e"
    by (simp add: word_le_nat_alt word_unat_eq_iff)
  let ?r = "if start_match (mem s) e then e else ls"
  have "scan_loop s ls le e = (if end_match (mem s) e then (s, ?r, e) else (poop s, ?r, le))"
    using assms(2) by (subst scan_loop.simps) (auto simp: Let_def)
  then show ?case
    using latest_start_single [of "mem s" e ls] \<open>i = e\<close> by blast
next
  case (Suc d)
  then have lt: "i < e"
    by (simp add: word_less_nat_alt)
  then have suc: "unat (i + 1) = Suc (unat i)"
    by (rule unat_succ)
  have "\<not> end_match (mem s) i"
    using lt by (intro Suc.prems(2)) simp_all
  moreover have "\<not> 0xFFFF \<le> i"
    using lt assms(1) by simp
  ultimately have unfold: "scan_loop s ls le i =
      scan_loop s (if start_match (mem s) i then i else ls) le (i + 1)"
    by (subst scan_loop.simps) (simp add: Let_def)
  have "\<exists>r. latest_start (mem s) (i + 1) e (if start_match (mem s) i then i else ls) r \<and>
      scan_loop s (if start_match (mem s) i then i else ls) le (i + 1) =
        (if end_match (mem s) e then (s, r, e) else (poop s, r, le))"
  proof (rule Suc.hyps(1))
    show "d = unat e - unat (i + 1)"
      using Suc.hyps(2) suc by simp
    show "i + 1 \<le> e"
      using lt by (rule inc_le)
    show "\<not> end_match (mem s) k" if "i + 1 \<le> k" "k < e" for k
      using that lt by (intro Suc.prems(2)) (simp_all add: succ_le_iff)
  qed
  then show ?case
    using latest_start_step [OF lt] unfold by metis
qed

lemma scan_loop_found:
  assumes "e \<le> 0xFFFF" and "end_match (mem s) e" and "\<And>k. k < e \<Longrightarrow> \<not> end_match (mem s) k"
  shows "\<exists>r. latest_start (mem s) 0 e 0 r \<and> scan_loop s 0 0 0 = (s, r, e)"
  using scan_loop_stops [of e s 0 0 0] assms by auto

lemma scan_loop_bound:
  assumes "\<And>k. k \<le> 0xFFFF \<Longrightarrow> \<not> end_match (mem s) k"
  shows "\<exists>r. latest_start (mem s) 0 0xFFFF 0 r \<and> scan_loop s 0 0 0 = (poop s, r, 0)"
  using scan_loop_stops [of "0xFFFF" s 0 0 0] assms by auto

section \<open>The scan inside the stage\<close>

lemma unat_cell: "k < 2000 \<Longrightarrow> unat (0xb8000 + 2 * of_nat k :: u32) = 0xb8000 + 2 * k"
proof -
  assume "k < 2000"
  have "unat (0xb8000 + 2 * of_nat k :: u32) = (0xb8000 + 2 * k) mod 2 ^ 32"
    using unat_of_nat [of "0xb8000 + 2 * k", where ?'a = 32] by simp
  also have "\<dots> = 0xb8000 + 2 * k"
    using \<open>k < 2000\<close> by simp
  finally show ?thesis .
qed

lemma char_cell_text: "0 < k \<Longrightarrow> k < 2000 \<Longrightarrow> char_cell (0xb8000 + 2 * of_nat k)"
  using unat_cell [of k] by (simp add: char_cell_def word_le_nat_alt word_less_nat_alt)

lemma vga_address_boot_text:
  "vga_address (foldl vga_put (boot m) bs) = 0xb8000 + 2 * of_nat (length bs)"
  by (simp add: vga_address_text boot_def)

lemma mem_boot_text_frame:
  assumes "length bs < 2000" and "\<not> char_cell x"
  shows "mem (foldl vga_put (boot m) bs) x = m x"
proof -
  have "x \<noteq> vga_address (boot m) + 2 * of_nat (Suc k)" if "k < length bs" for k
    using that assms char_cell_text [of "Suc k"] by (auto simp: boot_def)
  then have "mem (foldl vga_put (boot m) bs) x = mem (boot m) x"
    by (rule mem_text_frame)
  then show ?thesis
    by (simp add: boot_def)
qed

lemma mem_boot_text_cell:
  assumes "k < length bs" and "length bs < 2000"
  shows "mem (foldl vga_put (boot m) bs) (0xb8000 + 2 * of_nat (Suc k)) = bs ! k"
  using mem_text_cell [of k bs "boot m"] assms by (simp add: boot_def)

lemma low_not_char_cell: "x \<le> 0x1FFFF \<Longrightarrow> \<not> char_cell x"
  by (simp add: char_cell_def word_le_nat_alt)

lemma scanned_not_char_cell: "x \<le> 0x10000 \<Longrightarrow> \<not> char_cell x"
  by (simp add: char_cell_def word_le_nat_alt)

lemma attr_not_char_cell: "attr_cell x \<Longrightarrow> \<not> char_cell x"
  by (simp add: char_cell_def attr_cell_def)

lemma succ_le_bound: "(k::u32) \<le> 0xFFFF \<Longrightarrow> k + 1 \<le> 0x10000"
proof -
  assume "k \<le> 0xFFFF"
  then have "k < 0x10000"
    by (simp add: word_le_nat_alt word_less_nat_alt)
  then show ?thesis
    by (rule inc_le)
qed

lemma start_match_cong:
  "(\<And>x. x \<le> 0x10000 \<Longrightarrow> m x = m' x) \<Longrightarrow> k \<le> 0xFFFF \<Longrightarrow> start_match m k = start_match m' k"
  using succ_le_bound [of k] by (simp add: start_match_def our_ptr_def word_le_nat_alt)

lemma end_match_cong:
  "(\<And>x. x \<le> 0x10000 \<Longrightarrow> m x = m' x) \<Longrightarrow> k \<le> 0xFFFF \<Longrightarrow> end_match m k = end_match m' k"
  using succ_le_bound [of k] by (simp add: end_match_def our_ptr_def word_le_nat_alt)

lemma latest_start_cong:
  assumes "\<And>x. x \<le> 0x10000 \<Longrightarrow> m x = m' x" and "e \<le> 0xFFFF"
  shows "latest_start m i e ls r = latest_start m' i e ls r"
proof -
  have "start_match m k = start_match m' k" if "k \<le> e" for k
    using that assms by (intro start_match_cong) auto
  then show ?thesis
    unfolding latest_start_def by (metis order.strict_implies_order order_refl)
qed

lemma latest_start_bound: "latest_start m 0 e 0 r \<Longrightarrow> r \<le> e"
  by (auto simp: latest_start_def)

lemma poop_text: "poop s = foldl vga_put s (map of_char ''Poop'')"
  by (simp add: poop_def)

lemma decimal_length_lt: "length (decimal (unat (num::u32))) < 2000"
  using decimal_length_u32 [of num] by simp

lemma cmain_diag_found:
  assumes "e \<le> 0xFFFF" and "end_match m e" and "\<And>k. k < e \<Longrightarrow> \<not> end_match m k"
  shows "\<exists>r. latest_start m 0 e 0 r \<and>
    cmain_diag stk num_str (boot m) addr =
      Some (foldl vga_put (boot m) (decimal (unat addr) @ bounds_text r e), r, e)"
proof -
  let ?s = "foldl vga_put (boot m) (decimal (unat addr))"
  have same: "mem ?s x = m x" if "x \<le> 0x10000" for x
    using that by (intro mem_boot_text_frame decimal_length_lt scanned_not_char_cell)
  have ends: "end_match (mem ?s) k = end_match m k" if "k \<le> 0xFFFF" for k
    using that same by (intro end_match_cong) auto
  have "\<exists>r. latest_start (mem ?s) 0 e 0 r \<and> scan_loop ?s 0 0 0 = (?s, r, e)"
  proof (rule scan_loop_found)
    show "e \<le> 0xFFFF"
      by (rule assms(1))
    show "end_match (mem ?s) e"
      using assms(1,2) by (simp add: ends)
    show "\<not> end_match (mem ?s) k" if "k < e" for k
      using that assms(1,3) by (simp add: ends)
  qed
  then obtain r where r: "latest_start (mem ?s) 0 e 0 r" "scan_loop ?s 0 0 0 = (?s, r, e)"
    by blast
  have "latest_start m 0 e 0 r"
    using r(1) latest_start_cong [of "mem ?s" m e 0 0 r] same assms(1) by simp
  moreover have "cmain_diag stk num_str (boot m) addr =
      Some (foldl vga_put (boot m) (decimal (unat addr) @ bounds_text r e), r, e)"
    by (simp add: cmain_diag_text r(2))
  ultimately show ?thesis
    by blast
qed

lemma cmain_diag_bound:
  assumes "\<And>k. k \<le> 0xFFFF \<Longrightarrow> \<not> end_match m k"
  shows "\<exists>r. latest_start m 0 0xFFFF 0 r \<and>
    cmain_diag stk num_str (boot m) addr =
      Some (foldl vga_put (boot m) (decimal (unat addr) @ map of_char ''Poop'' @ bounds_text r 0), r, 0)"
proof -
  let ?s = "foldl vga_put (boot m) (decimal (unat addr))"
  have same: "mem ?s x = m x" if "x \<le> 0x10000" for x
    using that by (intro mem_boot_text_frame decimal_length_lt scanned_not_char_cell)
  have ends: "end_match (mem ?s) k = end_match m k" if "k \<le> 0xFFFF" for k
    using that same by (intro end_match_cong) auto
  have "\<exists>r. latest_start (mem ?s) 0 0xFFFF 0 r \<and> scan_loop ?s 0 0 0 = (poop ?s, r, 0)"
    using assms by (intro scan_loop_bound) (simp add: ends)
  then obtain r where r: "latest_start (mem ?s) 0 0xFFFF 0 r" "scan_loop ?s 0 0 0 = (poop ?s, r, 0)"
    by blast
  have "latest_start m 0 0xFFFF 0 r"
    using r(1) latest_start_cong [of "mem ?s" m "0xFFFF" 0 0 r] same by simp
  moreover have "cmain_diag stk num_str (boot m) addr =
      Some (foldl vga_put (boot m) (decimal (unat addr) @ map of_char ''Poop'' @ bounds_text r 0), r, 0)"
    by (simp add: cmain_diag_text r(2) poop_text)
  ultimately show ?thesis
    by blast
qed

lemma cmain_eq:
  "cmain stk num_str s addr =
   (case cmain_diag stk num_str s addr of
      None \<Rightarrow> None
    | Some (s', loader_start, loader_end) \<Rightarrow>
        Some \<lparr>machine = test (relocate s' loader_start loader_end), rust_arg = 0x10000\<rparr>)"
  by (simp add: cmain_def split: option.split)

lemma latest_start_covers:
  assumes "latest_start m i e ls r" and "start_match m k" and "i \<le> k" and "k \<le> e"
  shows "k \<le> r \<and> start_match m r \<and> i \<le> r \<and> r \<le> e"
proof -
  have "\<not> (\<forall>k. i \<le> k \<and> k \<le> e \<longrightarrow> \<not> start_match m k)"
    using assms(2-4) by blast
  then have r: "i \<le> r" "r \<le> e" "start_match m r" "\<forall>k. r < k \<and> k \<le> e \<longrightarrow> \<not> start_match m k"
    using assms(1) unfolding latest_start_def by blast+
  then have "\<not> r < k"
    using assms(2,4) by blast
  then show ?thesis
    using r by simp
qed

lemma latest_start_unique:
  assumes "latest_start m i e ls r" and "latest_start m i e ls r'"
  shows "r = r'"
proof (cases "\<exists>k. i \<le> k \<and> k \<le> e \<and> start_match m k")
  case True
  then obtain k where k: "i \<le> k" "k \<le> e" "start_match m k"
    by blast
  have "k \<le> r \<and> start_match m r \<and> i \<le> r \<and> r \<le> e"
    using assms(1) k by (intro latest_start_covers) auto
  moreover have "k \<le> r' \<and> start_match m r' \<and> i \<le> r' \<and> r' \<le> e"
    using assms(2) k by (intro latest_start_covers) auto
  ultimately have "r \<le> r'" and "r' \<le> r"
    using latest_start_covers [OF assms(2), of r] latest_start_covers [OF assms(1), of r'] by simp_all
  then show ?thesis
    by simp
next
  case False
  then have "r = ls" and "r' = ls"
    using assms unfolding latest_start_def by blast+
  then show ?thesis
    by simp
qed

lemma latest_start_none:
  "latest_start m 0 e 0 r \<Longrightarrow> (\<And>k. k \<le> e \<Longrightarrow> \<not> start_match m k) \<Longrightarrow> r = 0"
  by (auto simp: latest_start_def)

lemma latest_start_only:
  assumes "latest_start m 0 e 0 r" and "start_match m j" and "j \<le> e"
    and "\<And>k. k \<le> e \<Longrightarrow> k \<noteq> j \<Longrightarrow> \<not> start_match m k"
  shows "r = j"
  using assms unfolding latest_start_def by (metis word_zero_le)

lemma scan_found_from_image:
  assumes "e \<le> 0xFFFF" and "end_match m e" and "\<forall>k. k < e \<longrightarrow> \<not> end_match m k"
  shows "\<exists>r. latest_start m 0 e 0 r \<and>
     (\<forall>s. mem s = m \<longrightarrow> scan_loop s 0 0 0 = (s, r, e)) \<and>
     cmain_diag stk num_str (boot m) addr =
       Some (foldl vga_put (boot m) (decimal (unat addr) @ bounds_text r e), r, e)"
proof -
  obtain r where r: "latest_start m 0 e 0 r"
      "cmain_diag stk num_str (boot m) addr =
        Some (foldl vga_put (boot m) (decimal (unat addr) @ bounds_text r e), r, e)"
    using cmain_diag_found [OF assms(1,2)] assms(3) by blast
  have "scan_loop s 0 0 0 = (s, r, e)" if "mem s = m" for s
  proof -
    have "\<exists>r'. latest_start (mem s) 0 e 0 r' \<and> scan_loop s 0 0 0 = (s, r', e)"
      by (rule scan_loop_found) (simp_all add: that assms)
    then obtain r' where "latest_start (mem s) 0 e 0 r'" "scan_loop s 0 0 0 = (s, r', e)"
      by blast
    then show ?thesis
      using latest_start_unique [OF r(1)] that by auto
  qed
  with r show ?thesis
    by blast
qed

lemma scan_bound_from_image:
  assumes "\<forall>k. k \<le> 0xFFFF \<longrightarrow> \<not> end_match m k"
  shows "\<exists>r. latest_start m 0 0xFFFF 0 r \<and>
     (\<forall>s. mem s = m \<longrightarrow> scan_loop s 0 0 0 = (poop s, r, 0)) \<and>
     cmain_diag stk num_str (boot m) addr =
       Some (foldl vga_put (boot m)
         (decimal (unat addr) @ map of_char ''Poop'' @ bounds_text r 0), r, 0)"
proof -
  obtain r where r: "latest_start m 0 0xFFFF 0 r"
      "cmain_diag stk num_str (boot m) addr =
        Some (foldl vga_put (boot m)
          (decimal (unat addr) @ map of_char ''Poop'' @ bounds_text r 0), r, 0)"
    using cmain_diag_bound [of m] assms by blast
  have "scan_loop s 0 0 0 = (poop s, r, 0)" if "mem s = m" for s
  proof -
    have "\<exists>r'. latest_start (mem s) 0 0xFFFF 0 r' \<and> scan_loop s 0 0 0 = (poop s, r', 0)"
      by (rule scan_loop_bound) (simp add: that assms)
    then obtain r' where "latest_start (mem s) 0 0xFFFF 0 r'" "scan_loop s 0 0 0 = (poop s, r', 0)"
      by blast
    then show ?thesis
      using latest_start_unique [OF r(1)] that by auto
  qed
  with r show ?thesis
    by blast
qed



section \<open>The claims about the scan\<close>

text \<open>
  Claim C2. When the first end sentinel of the image is at an offset \<open>e\<close> within the
  scan bound, the scan returns \<open>loader_end = e\<close> and \<open>loader_start\<close> the last offset up to
  \<open>e\<close> where the start sentinel matched (zero when none did); a start match does not stop
  the scan and a later one replaces an earlier one; the diagnostic state is not touched by
  the scan. In particular a start sentinel at offset 10 (and nowhere else up to 90) and a
  first end sentinel at offset 90 give \<open>(10, 90)\<close>.
\<close>

theorem scan_stops_at_first_end:
  "(e \<le> 0xFFFF \<and> end_match m e \<and> (\<forall>k. k < e \<longrightarrow> \<not> end_match m k) \<longrightarrow>
      (\<exists>r. latest_start m 0 e 0 r \<and>
           (\<forall>s. mem s = m \<longrightarrow> scan_loop s 0 0 0 = (s, r, e)) \<and>
           (\<exists>s'. cmain_diag stk num_str (boot m) addr = Some (s', r, e)))) \<and>
   (start_match m 10 \<and> (\<forall>k. k \<le> 90 \<and> k \<noteq> 10 \<longrightarrow> \<not> start_match m k) \<and>
    end_match m 90 \<and> (\<forall>k. k < 90 \<longrightarrow> \<not> end_match m k) \<longrightarrow>
      (\<forall>s. mem s = m \<longrightarrow> scan_loop s 0 0 0 = (s, 10, 90)) \<and>
      (\<exists>s'. cmain_diag stk num_str (boot m) addr = Some (s', 10, 90)))"
proof (intro conjI impI)
  assume "e \<le> 0xFFFF \<and> end_match m e \<and> (\<forall>k. k < e \<longrightarrow> \<not> end_match m k)"
  then show "\<exists>r. latest_start m 0 e 0 r \<and>
      (\<forall>s. mem s = m \<longrightarrow> scan_loop s 0 0 0 = (s, r, e)) \<and>
      (\<exists>s'. cmain_diag stk num_str (boot m) addr = Some (s', r, e))"
    using scan_found_from_image [of e m stk num_str addr] by blast
next
  assume a: "start_match m 10 \<and> (\<forall>k. k \<le> 90 \<and> k \<noteq> 10 \<longrightarrow> \<not> start_match m k) \<and>
    end_match m 90 \<and> (\<forall>k. k < 90 \<longrightarrow> \<not> end_match m k)"
  then obtain r where r: "latest_start m 0 90 0 r"
      "\<forall>s. mem s = m \<longrightarrow> scan_loop s 0 0 0 = (s, r, 90)"
      "cmain_diag stk num_str (boot m) addr =
        Some (foldl vga_put (boot m) (decimal (unat addr) @ bounds_text r 90), r, 90)"
    using scan_found_from_image [of 90 m stk num_str addr] by force
  have "r = 10"
    using r(1) a by (intro latest_start_only [of m 90 r 10]) auto
  with r show "\<forall>s. mem s = m \<longrightarrow> scan_loop s 0 0 0 = (s, 10, 90)"
    and "\<exists>s'. cmain_diag stk num_str (boot m) addr = Some (s', 10, 90)"
    by auto
qed

theorem scan_stops_at_first_end_witness:
  "(\<exists>s'. cmain_diag (\<lambda>a. 0) 0
      (boot ((\<lambda>a. 0)(10 := 0x21, 11 := 0x73, 40 := 0x73, 41 := 0x21, 90 := 0xbe, 91 := 0xef))) 7 =
        Some (s', 40, 90)) \<and>
   (\<exists>s'. cmain_diag (\<lambda>a. 0) 0
      (boot ((\<lambda>a. 0)(10 := 0x21, 11 := 0x73, 90 := 0xbe, 91 := 0xef))) 7 = Some (s', 10, 90))"
proof -
  let ?a = "(\<lambda>a::u32. 0::u8)(10 := 0x21, 11 := 0x73, 40 := 0x73, 41 := 0x21, 90 := 0xbe, 91 := 0xef)"
  let ?b = "(\<lambda>a::u32. 0::u8)(10 := 0x21, 11 := 0x73, 90 := 0xbe, 91 := 0xef)"
  have a_end: "end_match ?a k \<longleftrightarrow> k = 90" for k
    by (auto simp: end_match_def our_ptr_def)
  have a_start: "start_match ?a k \<longleftrightarrow> k = 10 \<or> k = 40" for k
    by (auto simp: start_match_def our_ptr_def)
  have b_end: "end_match ?b k \<longleftrightarrow> k = 90" for k
    by (auto simp: end_match_def our_ptr_def)
  have b_start: "start_match ?b k \<longleftrightarrow> k = 10" for k
    by (auto simp: start_match_def our_ptr_def)
  have "(90::u32) \<le> 0xFFFF \<and> end_match ?a 90 \<and> (\<forall>k. k < 90 \<longrightarrow> \<not> end_match ?a k)"
    by (auto simp: a_end)
  then obtain r where r: "latest_start ?a 0 90 0 r"
      "\<exists>s'. cmain_diag (\<lambda>a. 0) 0 (boot ?a) 7 = Some (s', r, 90)"
    using scan_stops_at_first_end [of 90 ?a "\<lambda>a. 0" 0 7] by blast
  have "40 \<le> r \<and> start_match ?a r"
    using latest_start_covers [OF r(1), of 40] by (simp add: a_start)
  then have "r = 40"
    by (auto simp: a_start)
  moreover have "\<exists>s'. cmain_diag (\<lambda>a. 0) 0 (boot ?b) 7 = Some (s', 10, 90)"
    using scan_stops_at_first_end [of 90 ?b "\<lambda>a. 0" 0 7] by (auto simp: b_end b_start)
  ultimately show ?thesis
    using r(2) by simp
qed

text \<open>
  Claim C4. An end sentinel that comes before any start sentinel is accepted: the scan
  returns \<open>loader_start = 0\<close> with the offset of the end sentinel, and writes nothing
  but the usual bounds text. An image whose only sentinel is an end sentinel at offset 50
  gives \<open>(0, 50)\<close>.
\<close>

theorem end_before_start_not_rejected:
  "(e \<le> 0xFFFF \<and> end_match m e \<and> (\<forall>k. k < e \<longrightarrow> \<not> end_match m k) \<and>
    (\<forall>k. k \<le> e \<longrightarrow> \<not> start_match m k) \<longrightarrow>
      (\<forall>s. mem s = m \<longrightarrow> scan_loop s 0 0 0 = (s, 0, e)) \<and>
      cmain_diag stk num_str (boot m) addr =
        Some (foldl vga_put (boot m) (decimal (unat addr) @ bounds_text 0 e), 0, e)) \<and>
   (end_match m 50 \<and> (\<forall>k. k \<noteq> 50 \<longrightarrow> \<not> end_match m k) \<and> (\<forall>k. \<not> start_match m k) \<longrightarrow>
      (\<forall>s. mem s = m \<longrightarrow> scan_loop s 0 0 0 = (s, 0, 50)) \<and>
      cmain_diag stk num_str (boot m) addr =
        Some (foldl vga_put (boot m) (decimal (unat addr) @ map of_char ''S: 0  E: 50  ''), 0, 50))"
proof -
  have general: "(\<forall>s. mem s = m \<longrightarrow> scan_loop s 0 0 0 = (s, 0, e)) \<and>
      cmain_diag stk num_str (boot m) addr =
        Some (foldl vga_put (boot m) (decimal (unat addr) @ bounds_text 0 e), 0, e)"
    if h: "e \<le> 0xFFFF" "end_match m e" "\<forall>k. k < e \<longrightarrow> \<not> end_match m k"
      "\<forall>k. k \<le> e \<longrightarrow> \<not> start_match m k" for e
  proof -
    obtain r where r: "latest_start m 0 e 0 r"
        "\<forall>s. mem s = m \<longrightarrow> scan_loop s 0 0 0 = (s, r, e)"
        "cmain_diag stk num_str (boot m) addr =
          Some (foldl vga_put (boot m) (decimal (unat addr) @ bounds_text r e), r, e)"
      using scan_found_from_image [OF h(1,2,3), of stk num_str addr] by blast
    have "r = 0"
      using latest_start_none [OF r(1)] h(4) by blast
    with r show ?thesis
      by simp
  qed
  have shown: "bounds_text 0 50 = map of_char ''S: 0  E: 50  ''"
    by (simp add: bounds_text_def decimal.simps)
  show ?thesis
  proof (intro conjI impI)
    assume "e \<le> 0xFFFF \<and> end_match m e \<and> (\<forall>k. k < e \<longrightarrow> \<not> end_match m k) \<and>
      (\<forall>k. k \<le> e \<longrightarrow> \<not> start_match m k)"
    then show "\<forall>s. mem s = m \<longrightarrow> scan_loop s 0 0 0 = (s, 0, e)"
      and "cmain_diag stk num_str (boot m) addr =
        Some (foldl vga_put (boot m) (decimal (unat addr) @ bounds_text 0 e), 0, e)"
      using general [of e] by blast+
  next
    assume "end_match m 50 \<and> (\<forall>k. k \<noteq> 50 \<longrightarrow> \<not> end_match m k) \<and> (\<forall>k. \<not> start_match m k)"
    then have "(50::u32) \<le> 0xFFFF" "end_match m 50" "\<forall>k. k < 50 \<longrightarrow> \<not> end_match m k"
        "\<forall>k. k \<le> 50 \<longrightarrow> \<not> start_match m k"
      by auto
    then show "\<forall>s. mem s = m \<longrightarrow> scan_loop s 0 0 0 = (s, 0, 50)"
      and "cmain_diag stk num_str (boot m) addr =
        Some (foldl vga_put (boot m) (decimal (unat addr) @ map of_char ''S: 0  E: 50  ''), 0, 50)"
      using general [of 50] shown by simp_all
  qed
qed

theorem end_before_start_not_rejected_witness:
  "scan_loop (boot ((\<lambda>a. 0)(50 := 0xbe, 51 := 0xef))) 0 0 0 =
     (boot ((\<lambda>a. 0)(50 := 0xbe, 51 := 0xef)), 0, 50) \<and>
   cmain_diag (\<lambda>a. 0) 0 (boot ((\<lambda>a. 0)(50 := 0xef, 51 := 0xbe))) 0 =
     Some (foldl vga_put (boot ((\<lambda>a. 0)(50 := 0xef, 51 := 0xbe))) (map of_char ''0S: 0  E: 50  ''), 0, 50)"
proof -
  let ?a = "(\<lambda>a::u32. 0::u8)(50 := 0xbe, 51 := 0xef)"
  let ?b = "(\<lambda>a::u32. 0::u8)(50 := 0xef, 51 := 0xbe)"
  have a: "end_match ?a 50 \<and> (\<forall>k. k \<noteq> 50 \<longrightarrow> \<not> end_match ?a k) \<and> (\<forall>k. \<not> start_match ?a k)"
    by (auto simp: end_match_def start_match_def our_ptr_def)
  have b: "end_match ?b 50 \<and> (\<forall>k. k \<noteq> 50 \<longrightarrow> \<not> end_match ?b k) \<and> (\<forall>k. \<not> start_match ?b k)"
    by (auto simp: end_match_def start_match_def our_ptr_def)
  have "mem (boot ?a) = ?a"
    by (simp add: boot_def)
  then have "scan_loop (boot ?a) 0 0 0 = (boot ?a, 0, 50)"
    using end_before_start_not_rejected [of 50 ?a "\<lambda>a. 0" 0 0] a by blast
  moreover have "cmain_diag (\<lambda>a. 0) 0 (boot ?b) 0 =
      Some (foldl vga_put (boot ?b) (decimal (unat (0::u32)) @ map of_char ''S: 0  E: 50  ''), 0, 50)"
    using end_before_start_not_rejected [of 50 ?b "\<lambda>a. 0" 0 0] b by blast
  ultimately show ?thesis
    by (simp add: decimal.simps)
qed

text \<open>
  Claim C10. The bound is tested after the two sentinel tests of a round, so the offsets
  0 to \<open>0xFFFF\<close> are all examined before the scan gives up. An image whose first end
  sentinel is at offset \<open>0xFFFF\<close> ends the scan with \<open>loader_end = 0xFFFF\<close> and without the
  token; a start sentinel at \<open>0xFFFF\<close> is still recorded in the round that gives up.
\<close>

theorem scan_examines_last_offset:
  "(end_match m 0xFFFF \<and> (\<forall>k. k < 0xFFFF \<longrightarrow> \<not> end_match m k) \<longrightarrow>
      (\<exists>r. (\<forall>s. mem s = m \<longrightarrow> scan_loop s 0 0 0 = (s, r, 0xFFFF)) \<and>
           cmain_diag stk num_str (boot m) addr =
             Some (foldl vga_put (boot m) (decimal (unat addr) @ bounds_text r 0xFFFF), r, 0xFFFF))) \<and>
   (start_match m 0xFFFF \<and> (\<forall>k. k \<le> 0xFFFF \<longrightarrow> \<not> end_match m k) \<longrightarrow>
      (\<forall>s. mem s = m \<longrightarrow> scan_loop s 0 0 0 = (poop s, 0xFFFF, 0)))"
proof (intro conjI impI)
  assume "end_match m 0xFFFF \<and> (\<forall>k. k < 0xFFFF \<longrightarrow> \<not> end_match m k)"
  then show "\<exists>r. (\<forall>s. mem s = m \<longrightarrow> scan_loop s 0 0 0 = (s, r, 0xFFFF)) \<and>
      cmain_diag stk num_str (boot m) addr =
        Some (foldl vga_put (boot m) (decimal (unat addr) @ bounds_text r 0xFFFF), r, 0xFFFF)"
    using scan_found_from_image [of "0xFFFF" m stk num_str addr] by force
next
  assume a: "start_match m 0xFFFF \<and> (\<forall>k. k \<le> 0xFFFF \<longrightarrow> \<not> end_match m k)"
  then obtain r where r: "latest_start m 0 0xFFFF 0 r"
      "\<forall>s. mem s = m \<longrightarrow> scan_loop s 0 0 0 = (poop s, r, 0)"
    using scan_bound_from_image [of m stk num_str addr] by blast
  have "0xFFFF \<le> r \<and> r \<le> 0xFFFF"
    using latest_start_covers [OF r(1), of "0xFFFF"] a by simp
  then have "r = 0xFFFF"
    by (intro order_antisym) simp_all
  with r(2) show "\<forall>s. mem s = m \<longrightarrow> scan_loop s 0 0 0 = (poop s, 0xFFFF, 0)"
    by simp
qed

theorem scan_examines_last_offset_witness:
  "(\<exists>r. scan_loop (boot ((\<lambda>a. 0)(0xFFFF := 0xbe, 0x10000 := 0xef))) 0 0 0 =
      (boot ((\<lambda>a. 0)(0xFFFF := 0xbe, 0x10000 := 0xef)), r, 0xFFFF)) \<and>
   scan_loop (boot ((\<lambda>a. 0)(0xFFFF := 0x21, 0x10000 := 0x73))) 0 0 0 =
      (poop (boot ((\<lambda>a. 0)(0xFFFF := 0x21, 0x10000 := 0x73))), 0xFFFF, 0)"
proof -
  let ?a = "(\<lambda>a::u32. 0::u8)(0xFFFF := 0xbe, 0x10000 := 0xef)"
  let ?b = "(\<lambda>a::u32. 0::u8)(0xFFFF := 0x21, 0x10000 := 0x73)"
  have a: "end_match ?a 0xFFFF \<and> (\<forall>k. k < 0xFFFF \<longrightarrow> \<not> end_match ?a k)"
    by (auto simp: end_match_def our_ptr_def)
  have b: "start_match ?b 0xFFFF \<and> (\<forall>k. k \<le> 0xFFFF \<longrightarrow> \<not> end_match ?b k)"
    by (auto simp: end_match_def start_match_def our_ptr_def)
  have "mem (boot ?a) = ?a" and "mem (boot ?b) = ?b"
    by (simp_all add: boot_def)
  then show ?thesis
    using scan_examines_last_offset [of ?a "\<lambda>a. 0" 0 0] scan_examines_last_offset [of ?b "\<lambda>a. 0" 0 0] a b
    by blast
qed

section \<open>The relocation copy\<close>

text \<open>
  The destination of the relocation lies \<open>0x10000\<close> bytes above its source, so a copy
  longer than that reads bytes it has stored itself: byte \<open>i\<close> of the destination ends up
  as byte \<open>i mod 0x10000\<close> of the original source.
\<close>

lemma of_nat_neq: "i < 2 ^ 32 \<Longrightarrow> j < 2 ^ 32 \<Longrightarrow> i \<noteq> j \<Longrightarrow> (p::u32) + of_nat i \<noteq> p + of_nat j"
  using of_nat_add_inj [of i j p] by simp

lemma copy_steps_replicate:
  "k \<le> 2 ^ 32 \<Longrightarrow> i < k \<Longrightarrow>
   copy_steps m (0x10000 + s) s k (0x10000 + s + of_nat i) = m (s + of_nat (i mod 0x10000))"
proof (induction k arbitrary: i)
  case 0
  then show ?case by simp
next
  case (Suc k)
  let ?M = "copy_steps m (0x10000 + s) s k"
  have k: "k < 2 ^ 32" "k \<le> 2 ^ 32"
    using Suc.prems(1) by simp_all
  show ?case
  proof (cases "i = k")
    case False
    then have "i < k"
      using Suc.prems(2) by simp
    then have "0x10000 + s + of_nat i \<noteq> 0x10000 + s + of_nat k"
      using k(1) by (intro of_nat_neq) simp_all
    then show ?thesis
      using Suc.IH [OF k(2) \<open>i < k\<close>] by simp
  next
    case True
    have "?M (s + of_nat k) = m (s + of_nat (k mod 0x10000))"
    proof (cases "k < 0x10000")
      case True
      have "s + of_nat k \<noteq> 0x10000 + s + of_nat j" if "j < k" for j
      proof -
        have "s + of_nat k \<noteq> s + of_nat (0x10000 + j)"
          using that True by (intro of_nat_neq) simp_all
        then show ?thesis
          by (simp add: algebra_simps)
      qed
      then have "?M (s + of_nat k) = m (s + of_nat k)"
        by (intro copy_steps_frame) auto
      then show ?thesis
        using True by simp
    next
      case False
      then have split: "k = 0x10000 + (k - 0x10000)" and less: "k - 0x10000 < k"
        by simp_all
      have "s + of_nat k = s + of_nat (0x10000 + (k - 0x10000))"
        using split by simp
      also have "\<dots> = 0x10000 + s + of_nat (k - 0x10000)"
        by (simp only: of_nat_add) (simp add: algebra_simps)
      finally have "s + of_nat k = 0x10000 + s + of_nat (k - 0x10000)" .
      then have "?M (s + of_nat k) = ?M (0x10000 + s + of_nat (k - 0x10000))"
        by (rule arg_cong)
      also have "\<dots> = m (s + of_nat ((k - 0x10000) mod 0x10000))"
        using k(2) less by (rule Suc.IH)
      also have "(k - 0x10000) mod 0x10000 = k mod 0x10000"
        using False by (simp add: le_mod_geq)
      finally show ?thesis .
    qed
    then show ?thesis
      using True by simp
  qed
qed

lemma unat_bound32: "unat (n::u32) \<le> 2 ^ 32"
  using unsigned_less [of n, where ?'a = nat] by simp

lemma vga_address_relocate: "vga_address (relocate s ls le) = vga_address s"
  by (simp add: relocate_def)

lemma relocate_replicates:
  "i < unat (le - ls) \<Longrightarrow>
   mem (relocate s ls le) (0x10000 + ls + of_nat i) = mem s (ls + of_nat (i mod 0x10000))"
  using unat_bound32 [of "le - ls"] by (simp add: relocate_def memcpy_steps copy_steps_replicate)

lemma relocate_frame:
  "(\<And>i. i < unat (le - ls) \<Longrightarrow> x \<noteq> 0x10000 + ls + of_nat i) \<Longrightarrow>
   mem (relocate s ls le) x = mem s x"
  by (simp add: relocate_def memcpy_steps copy_steps_frame)

section \<open>The claims about the relocation\<close>

lemma unat_wrapped_size:
  "(le::u32) < ls \<Longrightarrow> unat (le - ls) = 2 ^ 32 + unat le - unat ls"
  by (simp add: unat_sub_if_size word_size word_less_nat_alt)

lemma int_wrapped_size:
  "int (unat ((le::u32) - ls)) = (int (unat le) - int (unat ls)) mod 2 ^ 32"
  by (simp add: uint_word_ariths)

text \<open>
  Claim C5. The length of the relocation copy is the 32-bit difference
  \<open>loader_end - loader_start\<close>, and nothing guards it. Whenever
  \<open>loader_end < loader_start\<close> the length is \<open>(loader_end - loader_start) mod 2 ^ 32\<close>, that
  is \<open>2 ^ 32 + loader_end - loader_start\<close>, and \<open>memcpy\<close> is called for exactly that many
  bytes with the destination \<open>0x10000 + loader_start\<close>: it runs that many byte copies, and
  byte \<open>i\<close> of the destination ends up as byte \<open>i mod 0x10000\<close> of the source. \<open>cmain\<close>
  passes whatever bounds the scan produced to this copy.
\<close>

theorem relocation_size_wraps:
  "(loader_end < loader_start \<longrightarrow>
      relocate s loader_start loader_end =
        s\<lparr>mem := memcpy (mem s) (0x10000 + loader_start) loader_start (loader_end - loader_start)\<rparr> \<and>
      unat (loader_end - loader_start) = 2 ^ 32 + unat loader_end - unat loader_start \<and>
      int (unat (loader_end - loader_start)) =
        (int (unat loader_end) - int (unat loader_start)) mod 2 ^ 32 \<and>
      memcpy (mem s) (0x10000 + loader_start) loader_start (loader_end - loader_start) =
        copy_steps (mem s) (0x10000 + loader_start) loader_start
          (2 ^ 32 + unat loader_end - unat loader_start) \<and>
      (\<forall>i. i < 2 ^ 32 + unat loader_end - unat loader_start \<longrightarrow>
         mem (relocate s loader_start loader_end) (0x10000 + loader_start + of_nat i) =
         mem s (loader_start + of_nat (i mod 0x10000)))) \<and>
   cmain stk num_str s0 addr =
     (case cmain_diag stk num_str s0 addr of
        None \<Rightarrow> None
      | Some (s', ls, le) \<Rightarrow> Some \<lparr>machine = test (relocate s' ls le), rust_arg = 0x10000\<rparr>)"
proof (intro conjI impI allI)
  show "relocate s loader_start loader_end =
      s\<lparr>mem := memcpy (mem s) (0x10000 + loader_start) loader_start (loader_end - loader_start)\<rparr>"
    by (simp add: relocate_def)
  show "int (unat (loader_end - loader_start)) =
      (int (unat loader_end) - int (unat loader_start)) mod 2 ^ 32"
    by (rule int_wrapped_size)
  show "cmain stk num_str s0 addr =
     (case cmain_diag stk num_str s0 addr of
        None \<Rightarrow> None
      | Some (s', ls, le) \<Rightarrow> Some \<lparr>machine = test (relocate s' ls le), rust_arg = 0x10000\<rparr>)"
    by (rule cmain_eq)
next
  assume "loader_end < loader_start"
  then show size: "unat (loader_end - loader_start) = 2 ^ 32 + unat loader_end - unat loader_start"
    by (rule unat_wrapped_size)
  then show "memcpy (mem s) (0x10000 + loader_start) loader_start (loader_end - loader_start) =
      copy_steps (mem s) (0x10000 + loader_start) loader_start
        (2 ^ 32 + unat loader_end - unat loader_start)"
    by (simp only: memcpy_steps)
  fix i
  assume "i < 2 ^ 32 + unat loader_end - unat loader_start"
  then have "i < unat (loader_end - loader_start)"
    using size by simp
  then show "mem (relocate s loader_start loader_end) (0x10000 + loader_start + of_nat i) =
      mem s (loader_start + of_nat (i mod 0x10000))"
    by (rule relocate_replicates)
qed

theorem relocation_size_wraps_witness:
  "\<exists>s'. cmain_diag (\<lambda>a. 0) 0 (boot ((\<lambda>a. 0)(5 := 0x21, 6 := 0x73))) 0 = Some (s', 5, 0) \<and>
     relocate s' 5 0 = s'\<lparr>mem := memcpy (mem s') 0x10005 5 0xFFFFFFFB\<rparr> \<and>
     unat (0xFFFFFFFB :: u32) = 4294967291 \<and>
     memcpy (mem s') 0x10005 5 0xFFFFFFFB = copy_steps (mem s') 0x10005 5 4294967291"
proof -
  let ?m = "(\<lambda>a::u32. 0::u8)(5 := 0x21, 6 := 0x73)"
  have "\<forall>k. k \<le> 0xFFFF \<longrightarrow> \<not> end_match ?m k"
    by (simp add: end_match_def)
  then obtain r s' where r: "latest_start ?m 0 0xFFFF 0 r"
      "cmain_diag (\<lambda>a. 0) 0 (boot ?m) 0 = Some (s', r, 0)"
    using scan_bound_from_image [of ?m "\<lambda>a. 0" 0 0] by blast
  have start: "start_match ?m k \<longleftrightarrow> k = 5" for k
    by (auto simp: start_match_def our_ptr_def)
  have "start_match ?m r"
    using latest_start_covers [OF r(1), of 5] by (simp add: start)
  then have "r = 5"
    by (simp add: start)
  have "(0::u32) < 5"
    by simp
  then have "relocate s' 5 0 = s'\<lparr>mem := memcpy (mem s') (0x10000 + 5) 5 (0 - 5)\<rparr> \<and>
      unat (0 - 5 :: u32) = 2 ^ 32 + unat (0::u32) - unat (5::u32) \<and>
      memcpy (mem s') (0x10000 + 5) 5 (0 - 5) =
        copy_steps (mem s') (0x10000 + 5) 5 (2 ^ 32 + unat (0::u32) - unat (5::u32))"
    using relocation_size_wraps [of 0 5 s' "\<lambda>a. 0" 0 "boot ?m" 0] by blast
  moreover have "(0 - 5 :: u32) = 0xFFFFFFFB" and "(0x10000 + 5 :: u32) = 0x10005"
      and "2 ^ 32 + unat (0::u32) - unat (5::u32) = 4294967291"
    by simp_all
  ultimately have "relocate s' 5 0 = s'\<lparr>mem := memcpy (mem s') 0x10005 5 0xFFFFFFFB\<rparr> \<and>
      unat (0xFFFFFFFB :: u32) = 4294967291 \<and>
      memcpy (mem s') 0x10005 5 0xFFFFFFFB = copy_steps (mem s') 0x10005 5 4294967291"
    by (simp only:)
  with r(2) \<open>r = 5\<close> show ?thesis
    by blast
qed

section \<open>The scan bound\<close>






section \<open>End to end\<close>

lemma small_offset: "(i::u32) < 8 \<Longrightarrow> unat (0x10004 + i) = 0x10004 + unat i \<and> unat (4 + i) = 4 + unat i"
proof -
  assume "i < 8"
  then have "unat i < 8"
    by (simp add: word_less_nat_alt)
  then show ?thesis
    by (simp add: unat_word_ariths)
qed

lemma text_cells_after:
  assumes "length bs + length cs < 2000" and "k < length cs"
  shows "mem (foldl vga_put (boot m) (bs @ cs))
      (vga_address (foldl vga_put (boot m) bs) + 2 * of_nat (Suc k)) = cs ! k"
proof -
  have "mem (foldl vga_put (boot m) (bs @ cs)) (0xb8000 + 2 * of_nat (Suc (length bs + k))) =
      (bs @ cs) ! (length bs + k)"
    using assms by (intro mem_boot_text_cell) simp_all
  moreover have "(bs @ cs) ! (length bs + k) = cs ! k"
    by (rule nth_append_length_plus)
  moreover have "vga_address (foldl vga_put (boot m) bs) + 2 * of_nat (Suc k) =
      0xb8000 + 2 * of_nat (Suc (length bs + k))"
    by (simp add: vga_address_boot_text algebra_simps)
  ultimately show ?thesis
    by (simp only:)
qed

lemma text_cell_after_is_char_cell:
  assumes "length bs + length cs < 2000" and "k < length cs"
  shows "char_cell (vga_address (foldl vga_put (boot m) bs) + 2 * of_nat (Suc k))"
proof -
  have "char_cell (0xb8000 + 2 * of_nat (Suc (length bs + k)))"
    using assms by (intro char_cell_text) simp_all
  then show ?thesis
    by (simp add: vga_address_boot_text algebra_simps)
qed

text \<open>
  Claim C1. On an image whose start sentinel is at offset 4 and whose first end sentinel
  is at offset 12, with no other sentinel match up to there, the scan gives
  \<open>(loader_start, loader_end) = (4, 12)\<close>; the text written after the scan is
  \<^verbatim>\<open>S: 4  E: 12  \<close>; the relocation is \<open>memcpy\<close> of 8 bytes from address 4 to address
  \<open>0x10004\<close>, after which the 8 destination bytes are the image bytes 4 to 11, nothing
  else has changed and the display still reads that text; the stage then hands over with
  the offset \<open>0x10000\<close>.
\<close>

theorem end_to_end_4_12:
  "start_match m 4 \<and> (\<forall>k. k \<le> 12 \<and> k \<noteq> 4 \<longrightarrow> \<not> start_match m k) \<and>
   end_match m 12 \<and> (\<forall>k. k < 12 \<longrightarrow> \<not> end_match m k) \<longrightarrow>
     (\<exists>s0 s'. s0 = foldl vga_put (boot m) (decimal (unat addr)) \<and>
        s' = foldl vga_put s0 (map of_char ''S: 4  E: 12  '') \<and>
        cmain_diag stk num_str (boot m) addr = Some (s', 4, 12) \<and>
        relocate s' 4 12 = s'\<lparr>mem := memcpy (mem s') 0x10004 4 8\<rparr> \<and>
        (\<forall>i. i < 8 \<longrightarrow> mem (relocate s' 4 12) (0x10004 + i) = m (4 + i)) \<and>
        (\<forall>x. (\<forall>i. i < 8 \<longrightarrow> x \<noteq> 0x10004 + i) \<longrightarrow> mem (relocate s' 4 12) x = mem s' x) \<and>
        map (\<lambda>k. mem (relocate s' 4 12) (vga_address s0 + 2 * of_nat (Suc k))) [0..<13] =
          map of_char ''S: 4  E: 12  '' \<and>
        cmain stk num_str (boot m) addr =
          Some \<lparr>machine = test (relocate s' 4 12), rust_arg = 0x10000\<rparr>)"
proof
  assume a: "start_match m 4 \<and> (\<forall>k. k \<le> 12 \<and> k \<noteq> 4 \<longrightarrow> \<not> start_match m k) \<and>
    end_match m 12 \<and> (\<forall>k. k < 12 \<longrightarrow> \<not> end_match m k)"
  let ?digits = "decimal (unat addr)"
  let ?text = "map of_char ''S: 4  E: 12  '' :: u8 list"
  let ?s0 = "foldl vga_put (boot m) ?digits"
  let ?s' = "foldl vga_put ?s0 ?text"
  have len: "length ?digits + length ?text < 2000"
    using decimal_length_u32 [of addr] by simp
  have s': "?s' = foldl vga_put (boot m) (?digits @ ?text)"
    by simp
  obtain r where r: "latest_start m 0 12 0 r"
      "cmain_diag stk num_str (boot m) addr =
        Some (foldl vga_put (boot m) (?digits @ bounds_text r 12), r, 12)"
    using scan_found_from_image [of 12 m stk num_str addr] a by force
  have "r = 4"
    using r(1) a by (intro latest_start_only [of m 12 r 4]) auto
  have shown: "bounds_text 4 12 = ?text"
    by (simp add: bounds_text_def decimal.simps)
  have diag: "cmain_diag stk num_str (boot m) addr = Some (?s', 4, 12)"
    using r(2) \<open>r = 4\<close> shown by simp
  have reloc: "relocate ?s' 4 12 = ?s'\<lparr>mem := memcpy (mem ?s') 0x10004 4 8\<rparr>"
    by (simp add: relocate_def)
  have low: "mem ?s' x = m x" if "x \<le> 0x1FFFF" for x
    unfolding s' using len that by (intro mem_boot_text_frame low_not_char_cell) simp_all
  have copied: "mem (relocate ?s' 4 12) (0x10004 + i) = m (4 + i)" if "i < 8" for i
  proof -
    have "memcpy (mem ?s') (0x10000 + 4) 4 8 (0x10000 + 4 + i) = mem ?s' (4 + i)"
      using that reloc_disjoint [of _ 8 _ 4] by (intro memcpy_disjoint) simp_all
    moreover have "4 + i \<le> 0x1FFFF"
      using small_offset [OF that] that by (simp add: word_le_nat_alt word_less_nat_alt)
    ultimately show ?thesis
      using low [of "4 + i"] by (simp add: relocate_def)
  qed
  have frame: "mem (relocate ?s' 4 12) x = mem ?s' x" if "\<forall>i. i < 8 \<longrightarrow> x \<noteq> 0x10004 + i" for x
    using that by (simp add: relocate_def memcpy_frame)
  have cells: "mem (relocate ?s' 4 12) (vga_address ?s0 + 2 * of_nat (Suc k)) = ?text ! k"
    if "k < 13" for k
  proof -
    have "char_cell (vga_address ?s0 + 2 * of_nat (Suc k))"
      using len that by (intro text_cell_after_is_char_cell [where cs = ?text]) simp_all
    moreover have "\<not> char_cell (0x10004 + i)" if "i < 8" for i
      using small_offset [OF that] that
      by (intro low_not_char_cell) (simp add: word_le_nat_alt word_less_nat_alt)
    ultimately have "\<forall>i. i < 8 \<longrightarrow> vga_address ?s0 + 2 * of_nat (Suc k) \<noteq> 0x10004 + i"
      by metis
    then have "mem (relocate ?s' 4 12) (vga_address ?s0 + 2 * of_nat (Suc k)) =
        mem ?s' (vga_address ?s0 + 2 * of_nat (Suc k))"
      by (rule frame)
    also have "\<dots> = ?text ! k"
      unfolding s' using len that by (intro text_cells_after) simp_all
    finally show ?thesis .
  qed
  have display: "map (\<lambda>k. mem (relocate ?s' 4 12) (vga_address ?s0 + 2 * of_nat (Suc k))) [0..<13] = ?text"
  proof (rule nth_equalityI)
    show "length (map (\<lambda>k. mem (relocate ?s' 4 12) (vga_address ?s0 + 2 * of_nat (Suc k))) [0..<13]) =
        length ?text"
      by simp
    fix i
    assume "i < length (map (\<lambda>k. mem (relocate ?s' 4 12) (vga_address ?s0 + 2 * of_nat (Suc k))) [0..<13])"
    then have "i < 13"
      by simp
    then have "map (\<lambda>k. mem (relocate ?s' 4 12) (vga_address ?s0 + 2 * of_nat (Suc k))) [0..<13] ! i =
        mem (relocate ?s' 4 12) (vga_address ?s0 + 2 * of_nat (Suc i))"
      by (simp only: nth_map length_upt nth_upt minus_nat.diff_0 add_0)
    with cells [OF \<open>i < 13\<close>]
    show "map (\<lambda>k. mem (relocate ?s' 4 12) (vga_address ?s0 + 2 * of_nat (Suc k))) [0..<13] ! i = ?text ! i"
      by (simp only:)
  qed
  have "cmain stk num_str (boot m) addr =
      Some \<lparr>machine = test (relocate ?s' 4 12), rust_arg = 0x10000\<rparr>"
    by (simp add: cmain_eq diag)
  with diag reloc copied frame display
  show "\<exists>s0 s'. s0 = foldl vga_put (boot m) (decimal (unat addr)) \<and>
        s' = foldl vga_put s0 (map of_char ''S: 4  E: 12  '') \<and>
        cmain_diag stk num_str (boot m) addr = Some (s', 4, 12) \<and>
        relocate s' 4 12 = s'\<lparr>mem := memcpy (mem s') 0x10004 4 8\<rparr> \<and>
        (\<forall>i. i < 8 \<longrightarrow> mem (relocate s' 4 12) (0x10004 + i) = m (4 + i)) \<and>
        (\<forall>x. (\<forall>i. i < 8 \<longrightarrow> x \<noteq> 0x10004 + i) \<longrightarrow> mem (relocate s' 4 12) x = mem s' x) \<and>
        map (\<lambda>k. mem (relocate s' 4 12) (vga_address s0 + 2 * of_nat (Suc k))) [0..<13] =
          map of_char ''S: 4  E: 12  '' \<and>
        cmain stk num_str (boot m) addr =
          Some \<lparr>machine = test (relocate s' 4 12), rust_arg = 0x10000\<rparr>"
    by blast
qed

theorem end_to_end_4_12_witness:
  "cmain_diag (\<lambda>a. 0) 0
     (boot ((\<lambda>a. 0)(4 := 0x21, 5 := 0x73, 6 := 0xAA, 12 := 0xbe, 13 := 0xef))) 0x7C00 =
     Some (foldl vga_put
       (boot ((\<lambda>a. 0)(4 := 0x21, 5 := 0x73, 6 := 0xAA, 12 := 0xbe, 13 := 0xef)))
       (map of_char ''31744S: 4  E: 12  ''), 4, 12) \<and>
   mem (relocate (foldl vga_put
       (boot ((\<lambda>a. 0)(4 := 0x21, 5 := 0x73, 6 := 0xAA, 12 := 0xbe, 13 := 0xef)))
       (map of_char ''31744S: 4  E: 12  '')) 4 12) 0x10006 = 0xAA \<and>
   cmain (\<lambda>a. 0) 0
     (boot ((\<lambda>a. 0)(4 := 0x21, 5 := 0x73, 6 := 0xAA, 12 := 0xbe, 13 := 0xef))) 0x7C00 =
     Some \<lparr>machine = test (relocate (foldl vga_put
       (boot ((\<lambda>a. 0)(4 := 0x21, 5 := 0x73, 6 := 0xAA, 12 := 0xbe, 13 := 0xef)))
       (map of_char ''31744S: 4  E: 12  '')) 4 12), rust_arg = 0x10000\<rparr>"
proof -
  let ?m = "(\<lambda>a::u32. 0::u8)(4 := 0x21, 5 := 0x73, 6 := 0xAA, 12 := 0xbe, 13 := 0xef)"
  let ?s = "foldl vga_put (boot ?m) (map of_char ''31744S: 4  E: 12  '')"
  have hyp: "start_match ?m 4 \<and> (\<forall>k. k \<le> 12 \<and> k \<noteq> 4 \<longrightarrow> \<not> start_match ?m k) \<and>
      end_match ?m 12 \<and> (\<forall>k. k < 12 \<longrightarrow> \<not> end_match ?m k)"
    by (auto simp: start_match_def end_match_def our_ptr_def)
  have digits: "decimal (unat (0x7C00::u32)) = map of_char ''31744''"
    by (simp add: decimal.simps)
  obtain s0 s' where s: "s0 = foldl vga_put (boot ?m) (decimal (unat (0x7C00::u32)))"
      "s' = foldl vga_put s0 (map of_char ''S: 4  E: 12  '')"
      "cmain_diag (\<lambda>a. 0) 0 (boot ?m) 0x7C00 = Some (s', 4, 12)"
      "\<forall>i. i < 8 \<longrightarrow> mem (relocate s' 4 12) (0x10004 + i) = ?m (4 + i)"
      "cmain (\<lambda>a. 0) 0 (boot ?m) 0x7C00 =
        Some \<lparr>machine = test (relocate s' 4 12), rust_arg = 0x10000\<rparr>"
    using end_to_end_4_12 [of ?m "0x7C00" "\<lambda>a. 0" 0] hyp by blast
  have "s' = ?s"
    unfolding s(1,2) digits by simp
  moreover have "mem (relocate s' 4 12) (0x10004 + 2) = ?m (4 + 2)"
    using s(4) [rule_format, of 2] by simp
  then have "mem (relocate s' 4 12) 0x10006 = 0xAA"
    by simp
  ultimately show ?thesis
    using s(3,5) by (simp only:)
qed

section \<open>The stage on an arbitrary image\<close>

lemma bounds_text_length: "length (bounds_text r e) \<le> 30 \<and> 0 < length (bounds_text r e)"
  using decimal_length_u32 [of r] decimal_length_u32 [of e] by (simp add: bounds_text_def)

lemma cmain_diag_total:
  "\<exists>rest r e. scan_image m = (r, e) \<and> 0 < length rest \<and> length rest \<le> 34 \<and>
     r \<le> 0xFFFF \<and> e \<le> 0xFFFF \<and> (r \<le> e \<or> e = 0) \<and>
     (\<forall>stk num_str addr. cmain_diag stk num_str (boot m) addr =
        Some (foldl vga_put (boot m) (decimal (unat addr) @ rest), r, e))"
proof (cases "\<exists>e. e \<le> 0xFFFF \<and> end_match m e")
  case True
  then obtain e where e: "e \<le> 0xFFFF \<and> end_match m e"
      "\<forall>k. k < e \<longrightarrow> \<not> (k \<le> 0xFFFF \<and> end_match m k)"
    using exists_least_iff [of "\<lambda>e. e \<le> 0xFFFF \<and> end_match m e"] by blast
  have first: "\<forall>k. k < e \<longrightarrow> \<not> end_match m k"
    using e by (metis order.strict_implies_order order.trans)
  obtain r where r: "latest_start m 0 e 0 r"
      "\<forall>s. mem s = m \<longrightarrow> scan_loop s 0 0 0 = (s, r, e)"
    using scan_found_from_image [of e m undefined undefined undefined] e(1) first by blast
  have "cmain_diag stk num_str (boot m) addr =
      Some (foldl vga_put (boot m) (decimal (unat addr) @ bounds_text r e), r, e)"
    for stk num_str addr
  proof -
    obtain r' where r': "latest_start m 0 e 0 r'"
        "cmain_diag stk num_str (boot m) addr =
          Some (foldl vga_put (boot m) (decimal (unat addr) @ bounds_text r' e), r', e)"
      using scan_found_from_image [of e m stk num_str addr] e(1) first by blast
    then show ?thesis
      using latest_start_unique [OF r(1) r'(1)] by simp
  qed
  moreover have "mem (boot m) = m"
    by (simp add: boot_def)
  then have "scan_image m = (r, e)"
    using r(2) by (simp add: scan_image_def)
  moreover have "r \<le> e"
    by (rule latest_start_bound [OF r(1)])
  moreover have "r \<le> 0xFFFF"
    using \<open>r \<le> e\<close> e(1) by (meson order.trans)
  ultimately show ?thesis
    using e(1) bounds_text_length [of r e]
    by (intro exI [of _ "bounds_text r e"] exI [of _ r] exI [of _ e]) simp
next
  case False
  then have none: "\<forall>k. k \<le> 0xFFFF \<longrightarrow> \<not> end_match m k"
    by blast
  obtain r where r: "latest_start m 0 0xFFFF 0 r"
      "\<forall>s. mem s = m \<longrightarrow> scan_loop s 0 0 0 = (poop s, r, 0)"
    using scan_bound_from_image [of m undefined undefined undefined] none by blast
  have "cmain_diag stk num_str (boot m) addr =
      Some (foldl vga_put (boot m)
        (decimal (unat addr) @ map of_char ''Poop'' @ bounds_text r 0), r, 0)"
    for stk num_str addr
  proof -
    obtain r' where r': "latest_start m 0 0xFFFF 0 r'"
        "cmain_diag stk num_str (boot m) addr =
          Some (foldl vga_put (boot m)
            (decimal (unat addr) @ map of_char ''Poop'' @ bounds_text r' 0), r', 0)"
      using scan_bound_from_image [of m stk num_str addr] none by blast
    then show ?thesis
      using latest_start_unique [OF r(1) r'(1)] by simp
  qed
  moreover have "mem (boot m) = m"
    by (simp add: boot_def)
  then have "scan_image m = (r, 0)"
    using r(2) by (simp add: scan_image_def)
  moreover have "r \<le> 0xFFFF"
    by (rule latest_start_bound [OF r(1)])
  ultimately show ?thesis
    using bounds_text_length [of r 0]
    by (intro exI [of _ "map of_char ''Poop'' @ bounds_text r 0"] exI [of _ r] exI [of _ 0]) simp
qed

lemma mem_test: "mem (test s) = (mem s)(vga_address s := of_char CHR ''q'')"
  by (simp add: test_def)

lemma cursor_is_char_cell:
  "0 < length bs \<Longrightarrow> length bs < 2000 \<Longrightarrow> char_cell (vga_address (foldl vga_put (boot m) bs))"
  by (simp add: vga_address_boot_text char_cell_text)

section \<open>The frame in raw memory\<close>
































section \<open>The entry argument\<close>





section \<open>The display\<close>

lemma attr_cell_high: "attr_cell x \<Longrightarrow> \<not> x \<le> 0x1FFFF"
  by (simp add: attr_cell_def word_le_nat_alt)

lemma dest_low:
  assumes "ls \<le> le" and "le \<le> 0xFFFF" and "i < unat (le - ls)"
  shows "0x10000 + ls + of_nat i \<le> (0x1FFFF::u32)"
proof -
  have le: "unat le \<le> 0xFFFF" and ls: "unat ls \<le> unat le"
    using assms(1,2) by (simp_all add: word_le_nat_alt)
  have "unat (le - ls) = unat le - unat ls"
    using assms(1) by (simp add: unat_sub)
  then have i: "unat ls + i < unat le"
    using assms(3) by simp
  then have "unat (of_nat i :: u32) = i"
    using le by (simp add: unat_of_nat)
  then have "unat (0x10000 + ls + of_nat i) = 0x10000 + unat ls + i"
    using i le by (simp add: unat_word_ariths)
  then show ?thesis
    using i le by (simp add: word_le_nat_alt)
qed

lemma relocate_keeps_high:
  assumes "ls \<le> le" and "le \<le> 0xFFFF" and "\<not> x \<le> 0x1FFFF"
  shows "mem (relocate s ls le) x = mem s x"
proof (rule relocate_frame)
  fix i
  assume "i < unat (le - ls)"
  then have "0x10000 + ls + of_nat i \<le> 0x1FFFF"
    using assms(1,2) by (intro dest_low)
  then show "x \<noteq> 0x10000 + ls + of_nat i"
    using assms(3) by auto
qed

text \<open>
  Claim C9, as the code has it. Every diagnostic write of \<open>cmain\<close> moves the one cursor
  two bytes on and stores one byte there. From the base \<open>0xb8000\<close> the cursor after the
  \<open>t\<close> characters of a run (at most 44) is \<open>0xb8000 + 2 t\<close>: it is never reset and does
  not wrap. The bytes stored are the character cells \<open>0xb8000 + 2 (k + 1)\<close>; every other
  address, and so every attribute byte of the display, keeps the value of the image. The
  relocation leaves the attribute bytes alone whenever \<open>loader_start \<le> loader_end\<close>.
\<close>

theorem diagnostic_writes_character_cells:
  "vga_address (vga_put s c) = vga_address s + 2 \<and>
   mem (vga_put s c) = (mem s)(vga_address s + 2 := c) \<and>
   (\<exists>shown ls le s'. cmain_diag stk num_str (boot m) addr = Some (s', ls, le) \<and>
      s' = foldl vga_put (boot m) shown \<and> length shown \<le> 44 \<and>
      vga_address s' = 0xb8000 + 2 * of_nat (length shown) \<and>
      (\<forall>k. k < length shown \<longrightarrow>
         char_cell (0xb8000 + 2 * of_nat (Suc k)) \<and>
         mem s' (0xb8000 + 2 * of_nat (Suc k)) = shown ! k) \<and>
      (\<forall>x. (\<forall>k. k < length shown \<longrightarrow> x \<noteq> 0xb8000 + 2 * of_nat (Suc k)) \<longrightarrow> mem s' x = m x) \<and>
      (\<forall>x. attr_cell x \<longrightarrow> mem s' x = m x) \<and>
      (ls \<le> le \<longrightarrow> (\<forall>x. attr_cell x \<longrightarrow> mem (relocate s' ls le) x = m x)))"
proof (intro conjI)
  show "vga_address (vga_put s c) = vga_address s + 2"
    by (rule vga_address_put)
  show "mem (vga_put s c) = (mem s)(vga_address s + 2 := c)"
    by (rule mem_put)
  obtain rest r e where run: "0 < length rest" "length rest \<le> 34" "e \<le> 0xFFFF"
      "\<forall>stk num_str addr. cmain_diag stk num_str (boot m) addr =
        Some (foldl vga_put (boot m) (decimal (unat addr) @ rest), r, e)"
    using cmain_diag_total [of m] by blast
  let ?shown = "decimal (unat addr) @ rest"
  let ?s' = "foldl vga_put (boot m) ?shown"
  have len: "length ?shown \<le> 44" "length ?shown < 2000"
    using run(2) decimal_length_u32 [of addr] by simp_all
  have cells: "char_cell (0xb8000 + 2 * of_nat (Suc k)) \<and>
      mem ?s' (0xb8000 + 2 * of_nat (Suc k)) = ?shown ! k" if "k < length ?shown" for k
    using that len(2) by (intro conjI char_cell_text mem_boot_text_cell) simp_all
  have frame: "mem ?s' x = m x" if "\<forall>k. k < length ?shown \<longrightarrow> x \<noteq> 0xb8000 + 2 * of_nat (Suc k)" for x
  proof -
    have "mem ?s' x = mem (boot m) x"
      using that by (intro mem_text_frame) (simp add: boot_def)
    then show ?thesis
      by (simp add: boot_def)
  qed
  have attr: "mem ?s' x = m x" if "attr_cell x" for x
    using that len(2) by (intro mem_boot_text_frame attr_not_char_cell)
  have reloc: "mem (relocate ?s' r e) x = m x" if "r \<le> e" "attr_cell x" for x
  proof -
    have "mem (relocate ?s' r e) x = mem ?s' x"
      using that run(3) by (intro relocate_keeps_high attr_cell_high)
    then show ?thesis
      using attr [OF that(2)] by (simp only:)
  qed
  show "\<exists>shown ls le s'. cmain_diag stk num_str (boot m) addr = Some (s', ls, le) \<and>
      s' = foldl vga_put (boot m) shown \<and> length shown \<le> 44 \<and>
      vga_address s' = 0xb8000 + 2 * of_nat (length shown) \<and>
      (\<forall>k. k < length shown \<longrightarrow>
         char_cell (0xb8000 + 2 * of_nat (Suc k)) \<and>
         mem s' (0xb8000 + 2 * of_nat (Suc k)) = shown ! k) \<and>
      (\<forall>x. (\<forall>k. k < length shown \<longrightarrow> x \<noteq> 0xb8000 + 2 * of_nat (Suc k)) \<longrightarrow> mem s' x = m x) \<and>
      (\<forall>x. attr_cell x \<longrightarrow> mem s' x = m x) \<and>
      (ls \<le> le \<longrightarrow> (\<forall>x. attr_cell x \<longrightarrow> mem (relocate s' ls le) x = m x))"
    using run(4) len(1) cells frame attr reloc vga_address_boot_text [of m ?shown]
    by (intro exI [of _ ?shown] exI [of _ r] exI [of _ e] exI [of _ ?s']) blast
qed

theorem diagnostic_writes_character_cells_witness:
  "vga_address (vga_put (boot (\<lambda>a. 0)) 0x41) = 0xb8002 \<and>
   (\<exists>shown s'. cmain_diag (\<lambda>a. 0) 0
        (boot ((\<lambda>a. 0)(4 := 0x21, 5 := 0x73, 12 := 0xbe, 13 := 0xef, 0xb8001 := 0x1F))) 7 =
        Some (s', 4, 12) \<and>
      s' = foldl vga_put
        (boot ((\<lambda>a. 0)(4 := 0x21, 5 := 0x73, 12 := 0xbe, 13 := 0xef, 0xb8001 := 0x1F))) shown \<and>
      vga_address s' = 0xb8000 + 2 * of_nat (length shown) \<and>
      mem s' 0xb8001 = 0x1F \<and>
      mem (relocate s' 4 12) 0xb8001 = 0x1F)"
proof -
  let ?m = "(\<lambda>a::u32. 0::u8)(4 := 0x21, 5 := 0x73, 12 := 0xbe, 13 := 0xef, 0xb8001 := 0x1F)"
  note inst = diagnostic_writes_character_cells [of "boot (\<lambda>a. 0)" "0x41" "\<lambda>a. 0" 0 ?m 7]
  have cursor: "vga_address (vga_put (boot (\<lambda>a. 0)) 0x41) = 0xb8002"
    using inst by (simp add: boot_def)
  have ends: "(12::u32) \<le> 0xFFFF" "end_match ?m 12" "\<forall>k. k < 12 \<longrightarrow> \<not> end_match ?m k"
    by (auto simp: end_match_def our_ptr_def)
  have start: "start_match ?m k \<longleftrightarrow> k = 4" for k
    by (auto simp: start_match_def our_ptr_def)
  obtain r s0 where r: "latest_start ?m 0 12 0 r"
      "cmain_diag (\<lambda>a. 0) 0 (boot ?m) 7 = Some (s0, r, 12)"
    using scan_found_from_image [OF ends, of "\<lambda>a. 0" 0 7] by blast
  have "start_match ?m r"
    using latest_start_covers [OF r(1), of 4] by (simp add: start)
  then have "r = 4"
    by (simp add: start)
  obtain shown ls le s' where run: "cmain_diag (\<lambda>a. 0) 0 (boot ?m) 7 = Some (s', ls, le)"
      "s' = foldl vga_put (boot ?m) shown"
      "vga_address s' = 0xb8000 + 2 * of_nat (length shown)"
      "\<forall>x. attr_cell x \<longrightarrow> mem s' x = ?m x"
      "ls \<le> le \<longrightarrow> (\<forall>x. attr_cell x \<longrightarrow> mem (relocate s' ls le) x = ?m x)"
    using inst by blast
  have bounds: "ls = 4" "le = 12"
    using run(1) r(2) \<open>r = 4\<close> by simp_all
  have attr: "attr_cell 0xb8001"
    by (simp add: attr_cell_def)
  have "mem s' 0xb8001 = ?m 0xb8001"
    using run(4) attr by blast
  moreover have "mem (relocate s' 4 12) 0xb8001 = ?m 0xb8001"
    using run(5) attr unfolding bounds by simp
  ultimately have "mem s' 0xb8001 = 0x1F" and "mem (relocate s' 4 12) 0xb8001 = 0x1F"
    by simp_all
  with run(1-3) cursor show ?thesis
    unfolding bounds by blast
qed

text \<open>
  The claim as the specification words it fails: on an image with a start sentinel at
  offset 5 and no end sentinel, the scan leaves \<open>(loader_start, loader_end) = (5, 0)\<close>, the
  relocation copies \<open>2 ^ 32 - 5\<close> bytes, and the attribute byte at \<open>0xb8001\<close> is
  overwritten.
\<close>

theorem attribute_byte_overwritten:
  "\<exists>h. cmain (\<lambda>a. 0) 0 (boot ((\<lambda>a. 0)(5 := 0x21, 6 := 0x73, 0xb8001 := 0x1F))) 0 = Some h \<and>
     attr_cell 0xb8001 \<and>
     ((\<lambda>a. 0)(5 := 0x21, 6 := 0x73, 0xb8001 := 0x1F)) (0xb8001::u32) = (0x1F::u8) \<and>
     mem (machine h) 0xb8001 = 0"
proof -
  let ?m = "(\<lambda>a::u32. 0::u8)(5 := 0x21, 6 := 0x73, 0xb8001 := 0x1F)"
  have "\<forall>k. k \<le> 0xFFFF \<longrightarrow> \<not> end_match ?m k"
    by (auto simp: end_match_def our_ptr_def)
  then obtain r where r: "latest_start ?m 0 0xFFFF 0 r"
      "cmain_diag (\<lambda>a. 0) 0 (boot ?m) 0 =
        Some (foldl vga_put (boot ?m)
          (decimal (unat (0::u32)) @ map of_char ''Poop'' @ bounds_text r 0), r, 0)"
    using scan_bound_from_image [of ?m "\<lambda>a. 0" 0 0] by blast
  have start: "start_match ?m k \<longleftrightarrow> k = 5" for k
    by (auto simp: start_match_def our_ptr_def)
  have "start_match ?m r"
    using latest_start_covers [OF r(1), of 5] by (simp add: start)
  then have "r = 5"
    by (simp add: start)
  let ?shown = "decimal (unat (0::u32)) @ map of_char ''Poop'' @ bounds_text 5 0"
  let ?s = "foldl vga_put (boot ?m) ?shown"
  have len: "0 < length ?shown" "length ?shown < 2000"
    using decimal_length_u32 [of 0] bounds_text_length [of 5 0] by simp_all
  have run: "cmain (\<lambda>a. 0) 0 (boot ?m) 0 =
      Some \<lparr>machine = test (relocate ?s 5 0), rust_arg = 0x10000\<rparr>"
    using r(2) \<open>r = 5\<close> by (simp add: cmain_eq)
  have attr: "attr_cell 0xb8001"
    by (simp add: attr_cell_def)
  have "char_cell (vga_address ?s)"
    using len by (rule cursor_is_char_cell)
  then have "vga_address ?s \<noteq> 0xb8001"
    using attr_not_char_cell [OF attr] by auto
  then have "mem (test (relocate ?s 5 0)) 0xb8001 = mem (relocate ?s 5 0) 0xb8001"
    by (simp add: mem_test vga_address_relocate)
  also have "mem (relocate ?s 5 0) 0xb8001 = mem ?s 0x8001"
  proof -
    have "(0xA7FFC::nat) < unat (0 - 5 :: u32)"
      by simp
    then have "mem (relocate ?s 5 0) (0x10000 + 5 + of_nat 0xA7FFC) =
        mem ?s (5 + of_nat (0xA7FFC mod 0x10000))"
      by (rule relocate_replicates)
    then show ?thesis
      by simp
  qed
  also have "mem ?s 0x8001 = ?m 0x8001"
    using len(2) by (intro mem_boot_text_frame low_not_char_cell) simp_all
  also have "?m 0x8001 = 0"
    by simp
  finally have "mem (test (relocate ?s 5 0)) 0xb8001 = 0" .
  with run attr show ?thesis
    by simp
qed

end
